theory Spec2Isabelle
  imports Main "HOL-Library.Char_ord" "HOL-Library.List_Lexorder"
begin

section \<open>Python values of \<^verbatim>\<open>tyme/timeline.py\<close>\<close>

text \<open>
  The exceptions the methods of \<^verbatim>\<open>Timeline\<close> can raise: \<^verbatim>\<open>TimelineError\<close> and
  \<^verbatim>\<open>ValueError\<close> with their messages, and the \<^verbatim>\<open>IndexError\<close> and \<^verbatim>\<open>KeyError\<close> of an
  out-of-range \<^verbatim>\<open>[-1]\<close> and of a missing dictionary key.
\<close>

datatype error = TimelineError string | ValueError string | IndexError | KeyError

text \<open>
  \<^verbatim>\<open>utils.Timestamp\<close>: the module \<^verbatim>\<open>tyme.utils\<close> is used by the timeline and is not part
  of the sources. A timestamp is what the timeline reads of it: \<^verbatim>\<open>date_str\<close>,
  \<^verbatim>\<open>datetime_str\<close> and \<^verbatim>\<open>datetime.day\<close> (the day of the month).
\<close>

record Timestamp =
  date_str :: string
  datetime_str :: string
  day :: int

text \<open>
  The two functions of \<^verbatim>\<open>tyme.utils\<close> that take arguments are parameters of the model:
  \<^verbatim>\<open>utils.parse\<close> and \<^verbatim>\<open>utils.offset_day\<close>. Every call of \<^verbatim>\<open>utils.utc_now()\<close> is an
  argument of the operation that makes the call (a reading of the clock).
\<close>

record utils =
  parse :: "string \<Rightarrow> Timestamp"
  offset_day :: "Timestamp \<Rightarrow> int \<Rightarrow> string"

text \<open>
  One entry of a day of the timeline, a \<^verbatim>\<open>Dict[str, str]\<close> with the keys \<^verbatim>\<open>"id"\<close>,
  \<^verbatim>\<open>"name"\<close>, \<^verbatim>\<open>"start"\<close> and, when present, \<^verbatim>\<open>"end"\<close> and \<^verbatim>\<open>"previous"\<close>.
  The test \<^verbatim>\<open>"end" in activity\<close> is \<open>e_end a \<noteq> None\<close>.
\<close>

record entry =
  e_id :: string
  e_name :: string
  e_start :: string
  e_end :: "string option"
  e_previous :: "string option"

text \<open>
  A Python \<^verbatim>\<open>dict\<close> is an association list in insertion order. Assigning to a key that
  is present replaces its value in place; assigning to a new key appends it.
\<close>

fun dict_set :: "('k \<times> 'v) list \<Rightarrow> 'k \<Rightarrow> 'v \<Rightarrow> ('k \<times> 'v) list" where
  "dict_set [] k v = [(k, v)]"
| "dict_set ((k', v') # kvs) k v =
     (if k' = k then (k, v) # kvs else (k', v') # dict_set kvs k v)"

type_synonym JSONTimeline = "(string \<times> entry list) list"

datatype JSONActivities = Activities "(string \<times> string \<times> JSONActivities) list"

text \<open>\<^verbatim>\<open>xs[-1]\<close>, which raises \<^verbatim>\<open>IndexError\<close> on the empty list.\<close>

definition py_last :: "'a list \<Rightarrow> error + 'a" where
  "py_last xs = (if xs = [] then Inl IndexError else Inr (last xs))"

text \<open>\<^verbatim>\<open>d[k]\<close>, which raises \<^verbatim>\<open>KeyError\<close> on a missing key.\<close>

definition dict_get :: "('k \<times> 'v) list \<Rightarrow> 'k \<Rightarrow> error + 'v" where
  "dict_get d k = (case map_of d k of None \<Rightarrow> Inl KeyError | Some v \<Rightarrow> Inr v)"

section \<open>The activity hierarchy\<close>

text \<open>
  \<^verbatim>\<open>Timeline.activity_id\<close>: the nested \<^verbatim>\<open>search\<close> walks the items of a category in
  order and descends into the children of an item before it goes on to the next one.
\<close>

fun search :: "string \<Rightarrow> JSONActivities \<Rightarrow> string option"
  and search_items :: "string \<Rightarrow> (string \<times> string \<times> JSONActivities) list \<Rightarrow> string option"
where
  "search activity (Activities items) = search_items activity items"
| "search_items activity [] = None"
| "search_items activity ((name, activity_id, children) # rest) =
     (if name = activity then Some activity_id
      else (case search activity children of
              Some potential_id \<Rightarrow> Some potential_id
            | None \<Rightarrow> search_items activity rest))"

definition activity_id :: "JSONActivities \<Rightarrow> string \<Rightarrow> string option" where
  "activity_id activities activity = search activity activities"

section \<open>The timeline\<close>

text \<open>
  \<^verbatim>\<open>self.timeline[sorted(self.timeline.keys())[-1]][-1]\<close>, the expression that
  \<^verbatim>\<open>current_activity\<close> and \<^verbatim>\<open>done\<close> share: the last entry of the greatest day. The
  result carries the day with the entry, since \<^verbatim>\<open>done\<close> assigns to the entry in place.
\<close>

definition last_activity :: "JSONTimeline \<Rightarrow> error + (string \<times> entry)" where
  "last_activity timeline =
     (case py_last (sort (map fst timeline)) of
        Inl e \<Rightarrow> Inl e
      | Inr d \<Rightarrow>
          (case dict_get timeline d of
             Inl e \<Rightarrow> Inl e
           | Inr activities \<Rightarrow>
               (case py_last activities of
                  Inl e \<Rightarrow> Inl e
                | Inr a \<Rightarrow> Inr (d, a))))"

text \<open>\<^verbatim>\<open>Timeline.current_activity\<close>.\<close>

definition current_activity :: "JSONTimeline \<Rightarrow> error + entry option" where
  "current_activity timeline =
     (if timeline = [] then Inr None
      else (case last_activity timeline of
              Inl e \<Rightarrow> Inl e
            | Inr (d, a) \<Rightarrow> if e_end a \<noteq> None then Inr None else Inr (Some a)))"

text \<open>
  The loop of \<^verbatim>\<open>done\<close> over \<^verbatim>\<open>range(1, num_days + 1)\<close>: every offset assigns a new
  one-entry list to the day \<^verbatim>\<open>utils.offset_day\<close> returns.
\<close>

fun fill_days :: "utils \<Rightarrow> Timestamp \<Rightarrow> entry \<Rightarrow> int list \<Rightarrow> JSONTimeline \<Rightarrow> JSONTimeline" where
  "fill_days U ts frag [] timeline = timeline"
| "fill_days U ts frag (offset # offsets) timeline =
     fill_days U ts frag offsets (dict_set timeline (offset_day U ts offset) [frag])"

text \<open>
  \<^verbatim>\<open>Timeline.done\<close>, with \<open>now\<close> the value of its call of \<^verbatim>\<open>utils.utc_now()\<close>. It
  returns the exception or the result, and the timeline as the call leaves it: the
  assignment to \<^verbatim>\<open>last_activity["end"]\<close> precedes the check of the dates, so the
  timeline of the \<^verbatim>\<open>TimelineError\<close> branch is the assigned one.
\<close>

definition set_end :: "JSONTimeline \<Rightarrow> string \<Rightarrow> string \<Rightarrow> JSONTimeline" where
  "set_end timeline d e =
     (case map_of timeline d of
        None \<Rightarrow> timeline
      | Some activities \<Rightarrow>
          dict_set timeline d (butlast activities @ [(last activities)\<lparr>e_end := Some e\<rparr>]))"

definition fragment :: "entry \<Rightarrow> Timestamp \<Rightarrow> entry" where
  "fragment a end_timestamp =
     \<lparr>e_id = e_id a, e_name = e_name a, e_start = e_start a,
      e_end = Some (datetime_str end_timestamp), e_previous = Some ''''\<rparr>"

definition done_activity ::
  "utils \<Rightarrow> Timestamp \<Rightarrow> JSONTimeline \<Rightarrow> (error + Timestamp \<times> Timestamp \<times> string) \<times> JSONTimeline"
where
  "done_activity U now timeline =
     (case last_activity timeline of
        Inl e \<Rightarrow> (Inl e, timeline)
      | Inr (d, a) \<Rightarrow>
          let start_timestamp = parse U (e_start a);
              end_timestamp = now;
              timeline1 = set_end timeline d (datetime_str end_timestamp)
          in if date_str start_timestamp > date_str end_timestamp
             then (Inl (TimelineError ''Finishing activity before it was started. Maybe system clock is wrong?''),
                   timeline1)
             else
               let timeline2 =
                     (if date_str start_timestamp \<noteq> date_str end_timestamp
                      then fill_days U start_timestamp (fragment a end_timestamp)
                             [1 .. day end_timestamp - day start_timestamp] timeline1
                      else timeline1)
               in (Inr (start_timestamp, end_timestamp, e_name a), timeline2))"

text \<open>
  \<^verbatim>\<open>Timeline.start\<close>. It reads the clock once itself (\<open>now\<close>) and, when an activity
  is going on, once more before that inside \<^verbatim>\<open>done\<close> (\<open>now_done\<close>).
\<close>

definition append_entry :: "JSONTimeline \<Rightarrow> string \<Rightarrow> entry \<Rightarrow> JSONTimeline" where
  "append_entry timeline d a =
     (let timeline1 = (if map_of timeline d = None then dict_set timeline d [] else timeline)
      in (case map_of timeline1 d of
            None \<Rightarrow> timeline1
          | Some activities \<Rightarrow> dict_set timeline1 d (activities @ [a])))"

definition start ::
  "utils \<Rightarrow> JSONActivities \<Rightarrow> string \<Rightarrow> Timestamp \<Rightarrow> Timestamp \<Rightarrow> JSONTimeline
     \<Rightarrow> (error + (Timestamp \<times> Timestamp \<times> string) option) \<times> JSONTimeline"
where
  "start U activities activity now_done now timeline =
     (case activity_id activities activity of
        None \<Rightarrow>
          (Inl (TimelineError (''The activity '' @ [CHR 0x27] @ activity @ [CHR 0x27] @ '' does not exist.'')),
           timeline)
      | Some aid \<Rightarrow>
          (case current_activity timeline of
             Inl e \<Rightarrow> (Inl e, timeline)
           | Inr cur \<Rightarrow>
               (case (if cur \<noteq> None
                      then (case done_activity U now_done timeline of
                              (Inl e, timeline1) \<Rightarrow> (Inl e, timeline1)
                            | (Inr r, timeline1) \<Rightarrow> (Inr (Some r), timeline1))
                      else (Inr None, timeline)) of
                  (Inl e, timeline1) \<Rightarrow> (Inl e, timeline1)
                | (Inr activity_completed, timeline1) \<Rightarrow>
                    (Inr activity_completed,
                     append_entry timeline1 (date_str now)
                       \<lparr>e_id = aid, e_name = activity, e_start = datetime_str now,
                        e_end = None, e_previous = None\<rparr>))))"

text \<open>
  \<^verbatim>\<open>Timeline.recent_activities\<close>. The result is a \<^verbatim>\<open>defaultdict(list)\<close>, so
  \<^verbatim>\<open>activities[day].append(activity)\<close> creates the day on its first entry. \<open>Inl\<close> of
  the inner loop is the \<^verbatim>\<open>return\<close> inside it; \<open>Inr\<close> carries \<^verbatim>\<open>num\<close> and the
  dictionary on to the next day.
\<close>

definition dict_append :: "JSONTimeline \<Rightarrow> string \<Rightarrow> entry \<Rightarrow> JSONTimeline" where
  "dict_append activities d a =
     (case map_of activities d of
        None \<Rightarrow> dict_set activities d [a]
      | Some as \<Rightarrow> dict_set activities d (as @ [a]))"

fun recent_day :: "string \<Rightarrow> entry list \<Rightarrow> int \<Rightarrow> JSONTimeline \<Rightarrow> JSONTimeline + int \<times> JSONTimeline" where
  "recent_day d [] num activities = Inr (num, activities)"
| "recent_day d (activity # rest) num activities =
     (if e_previous activity \<noteq> None then recent_day d rest num activities
      else let activities1 = dict_append activities d activity;
               num1 = num - 1
           in if num1 = 0 then Inl activities1 else recent_day d rest num1 activities1)"

fun recent_days :: "JSONTimeline \<Rightarrow> string list \<Rightarrow> int \<Rightarrow> JSONTimeline \<Rightarrow> JSONTimeline" where
  "recent_days timeline [] num activities = activities"
| "recent_days timeline (d # ds) num activities =
     (case recent_day d (case map_of timeline d of None \<Rightarrow> [] | Some as \<Rightarrow> as) num activities of
        Inl result \<Rightarrow> result
      | Inr (num1, activities1) \<Rightarrow> recent_days timeline ds num1 activities1)"

text \<open>
  The days are the keys of a dictionary, so they are distinct and
  \<^verbatim>\<open>sorted(keys, reverse=True)\<close> is the sorted list reversed.
\<close>

definition recent_activities :: "JSONTimeline \<Rightarrow> int \<Rightarrow> JSONTimeline" where
  "recent_activities timeline num = recent_days timeline (rev (sort (map fst timeline))) num []"

section \<open>Creating activities\<close>

text \<open>\<^verbatim>\<open>str.split(sep)\<close> with a one-character separator.\<close>

fun split_str :: "char \<Rightarrow> string \<Rightarrow> string list" where
  "split_str sep [] = [[]]"
| "split_str sep (c # cs) =
     (if c = sep then [] # split_str sep cs
      else (case split_str sep cs of
              [] \<Rightarrow> [[c]]
            | w # ws \<Rightarrow> (c # w) # ws))"

text \<open>
  The loop of \<^verbatim>\<open>Timeline.new_activity\<close> over \<^verbatim>\<open>path\<close> and the assignment after it.
  \<open>uuid4 n\<close> is the value of the \<open>n\<close>-th call of \<^verbatim>\<open>str(uuid.uuid4())\<close>, and the
  number of calls made is part of the result. The result holds the hierarchy as the
  call leaves it, also when it raises.
\<close>

fun walk ::
  "bool \<Rightarrow> string \<Rightarrow> (nat \<Rightarrow> string) \<Rightarrow> string list \<Rightarrow> string \<Rightarrow> nat \<Rightarrow> JSONActivities
     \<Rightarrow> error option \<times> JSONActivities \<times> nat"
where
  "walk parents activity uuid4 [] new_activity n (Activities current_category) =
     (None, Activities (dict_set current_category new_activity (uuid4 n, Activities [])), Suc n)"
| "walk parents activity uuid4 (category # path) new_activity n (Activities current_category) =
     (case map_of current_category category of
        None \<Rightarrow>
          if \<not> parents
          then (Some (ValueError (''the activity '' @ [CHR 0x27] @ category @ [CHR 0x27] @ '' within ''
                         @ [CHR 0x27] @ activity @ [CHR 0x27] @ '' does not exist'')),
                Activities current_category, n)
          else (case walk parents activity uuid4 path new_activity (Suc n) (Activities []) of
                  (err, children, n1) \<Rightarrow>
                    (err, Activities (dict_set current_category category (uuid4 n, children)), n1))
      | Some (aid, children0) \<Rightarrow>
          (case walk parents activity uuid4 path new_activity n children0 of
             (err, children, n1) \<Rightarrow>
               (err, Activities (dict_set current_category category (aid, children)), n1)))"

definition new_activity ::
  "(nat \<Rightarrow> string) \<Rightarrow> string \<Rightarrow> bool \<Rightarrow> nat \<Rightarrow> JSONActivities \<Rightarrow> error option \<times> JSONActivities \<times> nat"
where
  "new_activity uuid4 activity parents n activities =
     (let activity_path = tl (split_str CHR ''/'' activity)
      in if [] \<in> set activity_path
         then (Some (ValueError ''malformed absolute activity path''), activities, n)
         else if activity_path = []
         then (Some (ValueError ''not enough values to unpack (expected at least 1, got 0)''),
               activities, n)
         else walk parents activity uuid4 (butlast activity_path) (last activity_path) n activities)"

section \<open>Sequences of operations\<close>

text \<open>
  A session is a list of calls on one \<^verbatim>\<open>Timeline\<close> object, each with the clock
  readings it consumes. A call that raises leaves the object as it is at the raise, and
  the next call goes on from there.
\<close>

datatype op = Start string Timestamp Timestamp | Done Timestamp | Recent int | Current

fun step :: "utils \<Rightarrow> JSONActivities \<Rightarrow> JSONTimeline \<Rightarrow> op \<Rightarrow> JSONTimeline" where
  "step U activities timeline (Start activity now_done now) =
     snd (start U activities activity now_done now timeline)"
| "step U activities timeline (Done now) = snd (done_activity U now timeline)"
| "step U activities timeline (Recent num) = timeline"
| "step U activities timeline Current = timeline"

definition run :: "utils \<Rightarrow> JSONActivities \<Rightarrow> op list \<Rightarrow> JSONTimeline \<Rightarrow> JSONTimeline" where
  "run U activities ops timeline = foldl (step U activities) timeline ops"

text \<open>The clock readings of a session, in the order the calls are made.\<close>

fun readings :: "op list \<Rightarrow> Timestamp list" where
  "readings [] = []"
| "readings (Start activity now_done now # ops) = now_done # now # readings ops"
| "readings (Done now # ops) = now # readings ops"
| "readings (Recent num # ops) = readings ops"
| "readings (Current # ops) = readings ops"

section \<open>A clock for the examples\<close>

text \<open>
  Modelled from the spec: \<^verbatim>\<open>tyme.utils\<close> (\<^verbatim>\<open>parse\<close>, \<^verbatim>\<open>offset_day\<close>, the format of
  \<^verbatim>\<open>date_str\<close> and \<^verbatim>\<open>datetime_str\<close>) is missing from the sources. The examples of the
  spec write a timestamp as \<^verbatim>\<open>2024-01-10T23:50\<close> and a day as its first ten characters;
  \<open>iso_offset_day\<close> adds whole days in the Gregorian calendar (offsets below zero, which
  \<^verbatim>\<open>done\<close> never passes, count as zero). The theorems below hold for every \<open>utils\<close>;
  \<open>iso\<close> is the one the examples are evaluated with.
\<close>

definition digit :: "char \<Rightarrow> nat" where
  "digit c = of_char c - 48"

definition read_nat :: "string \<Rightarrow> nat" where
  "read_nat s = foldl (\<lambda>n c. 10 * n + digit c) 0 s"

definition show_digit :: "nat \<Rightarrow> char" where
  "show_digit n = char_of (48 + n mod 10)"

definition show2 :: "nat \<Rightarrow> string" where
  "show2 n = [show_digit (n div 10), show_digit n]"

definition show4 :: "nat \<Rightarrow> string" where
  "show4 n = [show_digit (n div 1000), show_digit (n div 100), show_digit (n div 10), show_digit n]"

definition leap_year :: "nat \<Rightarrow> bool" where
  "leap_year y = (y mod 4 = 0 \<and> (y mod 100 \<noteq> 0 \<or> y mod 400 = 0))"

definition days_in_month :: "nat \<Rightarrow> nat \<Rightarrow> nat" where
  "days_in_month y m =
     (if m = 2 then (if leap_year y then 29 else 28)
      else if m = 4 \<or> m = 6 \<or> m = 9 \<or> m = 11 then 30 else 31)"

fun next_day :: "nat \<times> nat \<times> nat \<Rightarrow> nat \<times> nat \<times> nat" where
  "next_day (y, m, d) =
     (if d < days_in_month y m then (y, m, d + 1)
      else if m < 12 then (y, m + 1, 1) else (y + 1, 1, 1))"

definition iso_parse :: "string \<Rightarrow> Timestamp" where
  "iso_parse s =
     \<lparr>date_str = take 10 s, datetime_str = s, day = int (read_nat (take 2 (drop 8 s)))\<rparr>"

definition iso_offset_day :: "Timestamp \<Rightarrow> int \<Rightarrow> string" where
  "iso_offset_day ts days_offset =
     (let s = date_str ts;
          (y, m, d) = (next_day ^^ nat days_offset)
                        (read_nat (take 4 s), read_nat (take 2 (drop 5 s)), read_nat (take 2 (drop 8 s)))
      in show4 y @ ''-'' @ show2 m @ ''-'' @ show2 d)"

definition iso :: utils where
  "iso = \<lparr>parse = iso_parse, offset_day = iso_offset_day\<rparr>"

section \<open>Notions the properties are stated with\<close>

text \<open>Days from the newest to the oldest, each strictly older than the one before it.\<close>

definition newest_first :: "string list \<Rightarrow> bool" where
  "newest_first ks = sorted_wrt (\<lambda>x y. y < x) ks"

text \<open>The dictionary the inner loop of \<^verbatim>\<open>recent_activities\<close> ends with, returned or not.\<close>

definition result_of :: "JSONTimeline + int \<times> JSONTimeline \<Rightarrow> JSONTimeline" where
  "result_of r = (case r of Inl acc \<Rightarrow> acc | Inr (n, acc) \<Rightarrow> acc)"

text \<open>The entries of a day that are no links to a previous day, in the order of the timeline.\<close>

definition real_of :: "JSONTimeline \<Rightarrow> string \<Rightarrow> entry list" where
  "real_of timeline d =
     filter (\<lambda>a. e_previous a = None) (case map_of timeline d of None \<Rightarrow> [] | Some as \<Rightarrow> as)"

definition day_part :: "JSONTimeline \<Rightarrow> string \<Rightarrow> entry list" where
  "day_part acc d = (case map_of acc d of None \<Rightarrow> [] | Some xs \<Rightarrow> xs)"

text \<open>Entries for the examples: one that is going on, and one that is completed.\<close>

definition ongoing :: "string \<Rightarrow> string \<Rightarrow> string \<Rightarrow> entry" where
  "ongoing aid name s = \<lparr>e_id = aid, e_name = name, e_start = s, e_end = None, e_previous = None\<rparr>"

definition completed :: "string \<Rightarrow> string \<Rightarrow> string \<Rightarrow> string \<Rightarrow> entry" where
  "completed aid name s e =
     \<lparr>e_id = aid, e_name = name, e_start = s, e_end = Some e, e_previous = None\<rparr>"

definition two_days :: JSONTimeline where
  "two_days =
     [(''2024-01-10'', [completed ''id-a'' ''a'' ''2024-01-10T09:00'' ''2024-01-10T10:00'']),
      (''2024-01-11'', [completed ''id-b'' ''b'' ''2024-01-11T09:00'' ''2024-01-11T10:00''])]"

text \<open>The children of the node a path of names leads to, from the root.\<close>

fun children_at :: "string list \<Rightarrow> JSONActivities \<Rightarrow> (string \<times> string \<times> JSONActivities) list option" where
  "children_at [] (Activities cs) = Some cs"
| "children_at (c # path) (Activities cs) =
     (case map_of cs c of None \<Rightarrow> None | Some (aid, sub) \<Rightarrow> children_at path sub)"

text \<open>The absolute path \<^verbatim>\<open>/p1/.../pn\<close> of the names \<open>p1, ..., pn\<close>.\<close>

definition join_path :: "string list \<Rightarrow> string" where
  "join_path segs = concat (map ((#) CHR ''/'') segs)"

text \<open>A generator of identifiers and a hierarchy for the examples.\<close>

definition uuid_ex :: "nat \<Rightarrow> string" where
  "uuid_ex n = ''uuid-'' @ show4 n"

definition work_catalog :: JSONActivities where
  "work_catalog = Activities [(''work'', ''id-work'', Activities [(''x'', ''id-x'', Activities [])])]"

text \<open>Every day of the timeline has an entry; every entry of the timeline is completed.\<close>

definition all_nonempty :: "JSONTimeline \<Rightarrow> bool" where
  "all_nonempty timeline = (\<forall>(d, es)\<in>set timeline. es \<noteq> [])"

definition all_closed :: "JSONTimeline \<Rightarrow> bool" where
  "all_closed timeline = (\<forall>(d, es)\<in>set timeline. \<forall>a\<in>set es. e_end a \<noteq> None)"

text \<open>The positions (day, index in the day) of the entries that have no \<^verbatim>\<open>"end"\<close>.\<close>

definition open_intervals :: "JSONTimeline \<Rightarrow> (string \<times> nat) list" where
  "open_intervals timeline =
     concat (map (\<lambda>(d, es). map (Pair d) (filter (\<lambda>i. e_end (es ! i) = None) [0..<length es])) timeline)"

text \<open>An entry with no \<^verbatim>\<open>"end"\<close> is the last entry of the greatest day.\<close>

definition closed_except_last :: "JSONTimeline \<Rightarrow> bool" where
  "closed_except_last timeline =
     (\<forall>(d, es)\<in>set timeline. \<forall>i<length es. e_end (es ! i) = None \<longrightarrow>
        d = last (sort (map fst timeline)) \<and> Suc i = length es)"

definition starts_in :: "string set \<Rightarrow> JSONTimeline \<Rightarrow> bool" where
  "starts_in S timeline = (\<forall>(d, es)\<in>set timeline. \<forall>a\<in>set es. e_start a \<in> S)"

text \<open>No day of the timeline is after the day \<open>b\<close>.\<close>

definition days_upto :: "string \<Rightarrow> JSONTimeline \<Rightarrow> bool" where
  "days_upto b timeline = (\<forall>d\<in>set (map fst timeline). d \<le> b)"

text \<open>
  What the timeline needs of \<^verbatim>\<open>utils.offset_day\<close>, on the start strings and the clock
  readings of a session: the days \<^verbatim>\<open>done\<close> fills for an activity that started on an earlier
  day are not after the day it is finished on.
\<close>

definition fills_bounded :: "utils \<Rightarrow> string list \<Rightarrow> Timestamp list \<Rightarrow> bool" where
  "fills_bounded U starts nows =
     (\<forall>s\<in>set starts. \<forall>now\<in>set nows. date_str (parse U s) < date_str now \<longrightarrow>
        (\<forall>k\<in>set [1 .. day now - day (parse U s)]. offset_day U (parse U s) k \<le> date_str now))"

definition start_strs :: "JSONTimeline \<Rightarrow> string list" where
  "start_strs timeline = concat (map (\<lambda>(d, es). map e_start es) timeline)"

text \<open>
  The example of the spec: an activity started at \<^verbatim>\<open>2024-01-10T23:50\<close> and finished at
  \<^verbatim>\<open>2024-01-12T00:10\<close>, alone and after an earlier day.
\<close>

definition spec_entry :: entry where
  "spec_entry = ongoing ''id-a'' ''a'' ''2024-01-10T23:50''"

definition spec_finish :: Timestamp where
  "spec_finish = iso_parse ''2024-01-12T00:10''"

definition spec_example :: JSONTimeline where
  "spec_example = [(''2024-01-10'', [spec_entry])]"

definition frame_example :: JSONTimeline where
  "frame_example =
     [(''2024-01-08'', [completed ''id-b'' ''b'' ''2024-01-08T09:00'' ''2024-01-08T10:00'']),
      (''2024-01-10'', [spec_entry])]"

text \<open>More timelines, a hierarchy and two sessions for the examples.\<close>

definition skew_example :: JSONTimeline where
  "skew_example = [(''2024-01-12'', [ongoing ''id-a'' ''a'' ''2024-01-12T09:00''])]"

definition b_ongoing :: JSONTimeline where
  "b_ongoing = [(''2024-01-10'', [ongoing ''id-b'' ''b'' ''2024-01-10T09:00''])]"

definition ab_catalog :: JSONActivities where
  "ab_catalog = Activities [(''a'', ''id-a'', Activities []), (''b'', ''id-b'', Activities [])]"

definition session :: "op list" where
  "session =
     [Start ''a'' (iso_parse ''2024-01-10T09:00'') (iso_parse ''2024-01-10T09:00''),
      Start ''b'' (iso_parse ''2024-01-10T23:50'') (iso_parse ''2024-01-10T23:50''),
      Done (iso_parse ''2024-01-12T00:10''),
      Start ''a'' (iso_parse ''2024-01-12T08:00'') (iso_parse ''2024-01-12T08:00'')]"

definition backward_session :: "op list" where
  "backward_session =
     [Start ''a'' (iso_parse ''2024-01-11T09:00'') (iso_parse ''2024-01-11T09:00''),
      Done (iso_parse ''2024-01-11T10:00''),
      Start ''a'' (iso_parse ''2024-01-10T09:00'') (iso_parse ''2024-01-10T09:00''),
      Start ''b'' (iso_parse ''2024-01-10T09:30'') (iso_parse ''2024-01-10T09:30'')]"



definition b_completed :: JSONTimeline where
  "b_completed = [(''2024-01-10'', [completed ''id-b'' ''b'' ''2024-01-10T09:00'' ''2024-01-10T10:00''])]"

definition idle_session :: "op list" where
  "idle_session =
     [Done spec_finish,
      Start ''b'' (iso_parse ''2024-01-12T08:00'') (iso_parse ''2024-01-12T08:00''),
      Recent 2, Current]"

section \<open>Properties of the dictionaries\<close>

lemma map_of_dict_set: "map_of (dict_set d k v) = (map_of d)(k \<mapsto> v)"
  by (induction d k v rule: dict_set.induct) auto

lemma keys_dict_set:
  "map fst (dict_set d k v) = (if k \<in> set (map fst d) then map fst d else map fst d @ [k])"
  by (induction d k v rule: dict_set.induct) auto

section \<open>The recent activities\<close>

lemma keys_dict_append:
  "map fst (dict_append acc d a) = (if d \<in> set (map fst acc) then map fst acc else map fst acc @ [d])"
  by (simp add: dict_append_def keys_dict_set split: option.splits)

lemma newest_first_dict_append:
  assumes "newest_first (map fst acc)" and "\<forall>k\<in>set (map fst acc). d \<le> k"
  shows "newest_first (map fst (dict_append acc d a)) \<and> (\<forall>k\<in>set (map fst (dict_append acc d a)). d \<le> k)"
proof (cases "d \<in> set (map fst acc)")
  case True
  with assms show ?thesis by (simp add: keys_dict_append)
next
  case False
  with assms have "\<forall>k\<in>set (map fst acc). d < k"
    by (metis order_le_imp_less_or_eq)
  with assms False show ?thesis
    by (auto simp add: keys_dict_append newest_first_def sorted_wrt_append)
qed

lemma newest_first_recent_day:
  "newest_first (map fst acc) \<Longrightarrow> \<forall>k\<in>set (map fst acc). d \<le> k \<Longrightarrow>
   newest_first (map fst (result_of (recent_day d as num acc))) \<and>
   (\<forall>k\<in>set (map fst (result_of (recent_day d as num acc))). d \<le> k)"
proof (induction d as num acc rule: recent_day.induct)
  case (1 d num activities)
  then show ?case by (simp add: result_of_def)
next
  case (2 d activity rest num activities)
  show ?case
  proof (cases "e_previous activity \<noteq> None")
    case True
    with 2 show ?thesis by simp
  next
    case False
    note nf = newest_first_dict_append [OF "2.prems"(1) "2.prems"(2), of activity]
    show ?thesis
    proof (cases "num - 1 = 0")
      case True
      with False nf show ?thesis by (simp add: result_of_def Let_def)
    next
      case n0: False
      from False n0 nf "2.IH"(2) [OF _ refl refl n0] show ?thesis
        by (simp add: Let_def)
    qed
  qed
qed

lemma newest_first_recent_days:
  "newest_first (map fst acc) \<Longrightarrow> newest_first ds \<Longrightarrow> \<forall>k\<in>set (map fst acc). \<forall>d\<in>set ds. d < k \<Longrightarrow>
   newest_first (map fst (recent_days timeline ds num acc))"
proof (induction timeline ds num acc rule: recent_days.induct)
  case (1 timeline num activities)
  then show ?case by simp
next
  case (2 timeline d ds num activities)
  let ?as = "case map_of timeline d of None \<Rightarrow> [] | Some as \<Rightarrow> as"
  have le: "\<forall>k\<in>set (map fst activities). d \<le> k"
    using "2.prems"(3) by (simp add: less_imp_le)
  note rd = newest_first_recent_day [OF "2.prems"(1) le, of ?as num]
  show ?case
  proof (cases "recent_day d ?as num activities")
    case (Inl r)
    with rd show ?thesis by (simp add: result_of_def)
  next
    case (Inr p)
    obtain num1 acc1 where p: "p = (num1, acc1)" by (cases p)
    from rd Inr p have a1: "newest_first (map fst acc1)" and a2: "\<forall>k\<in>set (map fst acc1). d \<le> k"
      by (simp_all add: result_of_def)
    from "2.prems"(2) have ds: "newest_first ds" and dd: "\<forall>x\<in>set ds. x < d"
      by (simp_all add: newest_first_def)
    have "\<forall>k\<in>set (map fst acc1). \<forall>x\<in>set ds. x < k"
      using a2 dd by (meson order_less_le_trans)
    from "2.IH" [OF Inr p [symmetric] a1 ds this] Inr p show ?thesis by simp
  qed
qed

lemma newest_first_rev_sort: "distinct ks \<Longrightarrow> newest_first (rev (sort ks))"
proof -
  assume d: "distinct ks"
  have "sorted_wrt (<) (sort ks)"
    using d by (simp add: strict_sorted_iff)
  then show ?thesis
    by (simp add: newest_first_def sorted_wrt_rev)
qed

lemma recent_activities_newest_first:
  "distinct (map fst timeline) \<Longrightarrow> newest_first (map fst (recent_activities timeline num))"
  unfolding recent_activities_def
  by (rule newest_first_recent_days) (simp_all add: newest_first_rev_sort, simp add: newest_first_def)

lemma map_of_dict_append:
  "map_of (dict_append acc d a) = (map_of acc)(d \<mapsto> day_part acc d @ [a])"
  by (simp add: dict_append_def day_part_def map_of_dict_set split: option.splits)

lemma recent_day_other:
  "d' \<noteq> d \<Longrightarrow> map_of (result_of (recent_day d as num acc)) d' = map_of acc d'"
  by (induction d as num acc rule: recent_day.induct)
     (simp_all add: result_of_def Let_def map_of_dict_append)

lemma recent_day_same:
  "\<exists>j. map_of (result_of (recent_day d as num acc)) d =
        (if j = 0 then map_of acc d
         else Some (day_part acc d @ take j (filter (\<lambda>a. e_previous a = None) as)))"
proof (induction d as num acc rule: recent_day.induct)
  case (1 d num activities)
  show ?case by (rule exI [of _ 0]) (simp add: result_of_def)
next
  case (2 d activity rest num activities)
  show ?case
  proof (cases "e_previous activity \<noteq> None")
    case True
    from "2.IH"(1) [OF True] obtain j where
      "map_of (result_of (recent_day d rest num activities)) d =
        (if j = 0 then map_of activities d
         else Some (day_part activities d @ take j (filter (\<lambda>a. e_previous a = None) rest)))"
      by blast
    with True show ?thesis
      by (intro exI [of _ j]) auto
  next
    case False
    show ?thesis
    proof (cases "num - 1 = 0")
      case True
      with False show ?thesis
        by (intro exI [of _ 1]) (simp add: result_of_def Let_def map_of_dict_append)
    next
      case n0: False
      from "2.IH"(2) [OF _ refl refl n0] False
      obtain j where j: "map_of (result_of (recent_day d rest (num - 1) (dict_append activities d activity))) d =
        (if j = 0 then map_of (dict_append activities d activity) d
         else Some (day_part (dict_append activities d activity) d @ take j (filter (\<lambda>a. e_previous a = None) rest)))"
        by auto
      show ?thesis
        using j False n0
        by (intro exI [of _ "Suc j"]) (simp add: Let_def map_of_dict_append day_part_def)
    qed
  qed
qed

lemma recent_days_parts:
  "distinct ds \<Longrightarrow> \<forall>d\<in>set ds. map_of acc d = None \<Longrightarrow>
   map_of (recent_days timeline ds num acc) d = Some xs \<Longrightarrow>
   map_of acc d = Some xs \<or> (d \<in> set ds \<and> (\<exists>j. xs = take j (real_of timeline d)))"
proof (induction timeline ds num acc rule: recent_days.induct)
  case (1 timeline num activities)
  then show ?case by simp
next
  case (2 timeline d0 ds num activities)
  let ?as = "case map_of timeline d0 of None \<Rightarrow> [] | Some as \<Rightarrow> as"
  let ?r = "recent_day d0 ?as num activities"
  obtain j where j: "map_of (result_of ?r) d0 =
        (if j = 0 then map_of activities d0
         else Some (day_part activities d0 @ take j (filter (\<lambda>a. e_previous a = None) ?as)))"
    using recent_day_same by blast
  have none0: "map_of activities d0 = None" using "2.prems"(2) by simp
  then have dp: "day_part activities d0 = []" by (simp add: day_part_def)
  have step: "\<And>x. map_of (result_of ?r) d = Some x \<Longrightarrow>
      map_of activities d = Some x \<or> (d = d0 \<and> (\<exists>j. x = take j (real_of timeline d)))"
  proof -
    fix x assume x: "map_of (result_of ?r) d = Some x"
    show "map_of activities d = Some x \<or> (d = d0 \<and> (\<exists>j. x = take j (real_of timeline d)))"
    proof (cases "d = d0")
      case True
      with x j none0 dp show ?thesis
        by (auto simp add: real_of_def split: if_splits)
    next
      case False
      with x recent_day_other [of d d0 ?as num activities] show ?thesis by simp
    qed
  qed
  show ?case
  proof (cases ?r)
    case (Inl r)
    with "2.prems"(3) have "map_of (result_of ?r) d = Some xs" by (simp add: result_of_def)
    from step [OF this] show ?thesis by auto
  next
    case (Inr p)
    obtain num1 acc1 where p: "p = (num1, acc1)" by (cases p)
    have acc1: "result_of ?r = acc1" using Inr p by (simp add: result_of_def)
    have dist: "distinct ds" and notin: "d0 \<notin> set ds" using "2.prems"(1) by simp_all
    have none1: "\<forall>d\<in>set ds. map_of acc1 d = None"
    proof
      fix x assume "x \<in> set ds"
      with notin have "x \<noteq> d0" by auto
      from recent_day_other [OF this, of ?as num activities] acc1 "2.prems"(2) \<open>x \<in> set ds\<close>
      show "map_of acc1 x = None" by simp
    qed
    from "2.prems"(3) Inr p have "map_of (recent_days timeline ds num1 acc1) d = Some xs" by simp
    from "2.IH" [OF Inr p [symmetric] dist none1 this]
    show ?thesis
    proof
      assume "map_of acc1 d = Some xs"
      with acc1 have "map_of (result_of ?r) d = Some xs" by simp
      from step [OF this] show ?thesis by auto
    next
      assume "d \<in> set ds \<and> (\<exists>j. xs = take j (real_of timeline d))"
      then show ?thesis by auto
    qed
  qed
qed

lemma newest_first_distinct: "newest_first ks \<Longrightarrow> distinct ks"
  unfolding newest_first_def
  by (induction ks) auto

text \<open>
  C7 (as the code has it). The dictionary \<^verbatim>\<open>recent_activities\<close> returns is filled while
  the days are scanned from the newest to the oldest, so its days stand newest first, each
  strictly older than the one before it. The list of every day it holds is an initial part
  of that day's entries of the timeline that are no links to a previous day, in their
  original order.
\<close>

theorem recent_activities_order:
  assumes "distinct (map fst timeline)"
  shows "newest_first (map fst (recent_activities timeline num)) \<and>
         (\<forall>(d, xs)\<in>set (recent_activities timeline num). \<exists>j. xs = take j (real_of timeline d))"
proof
  show nf: "newest_first (map fst (recent_activities timeline num))"
    using assms by (rule recent_activities_newest_first)
  show "\<forall>(d, xs)\<in>set (recent_activities timeline num). \<exists>j. xs = take j (real_of timeline d)"
  proof (clarify)
    fix d xs assume "(d, xs) \<in> set (recent_activities timeline num)"
    with newest_first_distinct [OF nf] have "map_of (recent_activities timeline num) d = Some xs"
      by simp
    then have "map_of (recent_days timeline (rev (sort (map fst timeline))) num []) d = Some xs"
      by (simp add: recent_activities_def)
    from recent_days_parts [OF _ _ this] assms
    show "\<exists>j. xs = take j (real_of timeline d)" by simp
  qed
qed

theorem recent_activities_order_witness:
  "distinct (map fst two_days) \<and>
   newest_first (map fst (recent_activities two_days 2)) \<and>
   set (recent_activities two_days 2) \<noteq> {}"
proof -
  have d: "distinct (map fst two_days)" by (simp add: two_days_def)
  have "set (recent_activities two_days 2) \<noteq> {}"
    by (simp add: recent_activities_def two_days_def completed_def dict_append_def)
  with recent_activities_order [OF d, of 2] d show ?thesis by blast
qed

text \<open>
  C7 as stated fails: with one entry on each of two days, the returned dictionary starts
  with the newer day.
\<close>

theorem recent_activities_oldest_first_counterexample:
  "recent_activities two_days 2 =
     [(''2024-01-11'', [completed ''id-b'' ''b'' ''2024-01-11T09:00'' ''2024-01-11T10:00'']),
      (''2024-01-10'', [completed ''id-a'' ''a'' ''2024-01-10T09:00'' ''2024-01-10T10:00''])]"
  by (simp add: recent_activities_def two_days_def completed_def dict_append_def)

text \<open>
  C6 at \<^verbatim>\<open>num = 0\<close>: the loop decrements \<^verbatim>\<open>num\<close> to \<open>-1\<close> before it compares it with
  \<open>0\<close>, so it never returns early and every entry of the timeline is returned.
\<close>

theorem recent_activities_zero:
  "recent_activities two_days 0 =
     [(''2024-01-11'', [completed ''id-b'' ''b'' ''2024-01-11T09:00'' ''2024-01-11T10:00'']),
      (''2024-01-10'', [completed ''id-a'' ''a'' ''2024-01-10T09:00'' ''2024-01-10T10:00''])]"
  by (simp add: recent_activities_def two_days_def completed_def dict_append_def)

section \<open>Creating an activity whose name is taken\<close>

lemma split_str_no_sep: "sep \<notin> set w \<Longrightarrow> split_str sep w = [w]"
  by (induction w) auto

lemma split_str_append: "sep \<notin> set w \<Longrightarrow> split_str sep (w @ sep # r) = w # split_str sep r"
  by (induction w) auto

lemma split_str_join:
  "\<forall>seg\<in>set segs. CHR ''/'' \<notin> set seg \<Longrightarrow> split_str CHR ''/'' (join_path segs) = [] # segs"
proof (induction segs)
  case Nil
  then show ?case by (simp add: join_path_def)
next
  case (Cons s segs)
  then have IH: "split_str CHR ''/'' (join_path segs) = [] # segs" and s: "CHR ''/'' \<notin> set s" by simp_all
  show ?case
  proof (cases segs)
    case Nil
    with s show ?thesis by (simp add: join_path_def split_str_no_sep)
  next
    case (Cons t ts)
    then have "join_path (s # segs) = CHR ''/'' # (s @ CHR ''/'' # join_path_tail)" if "join_path_tail = t @ join_path ts" for join_path_tail
      using that by (simp add: join_path_def)
    then have e: "join_path (s # segs) = CHR ''/'' # (s @ CHR ''/'' # (t @ join_path ts))" by simp
    have "join_path segs = CHR ''/'' # (t @ join_path ts)" using Cons by (simp add: join_path_def)
    with IH have "split_str CHR ''/'' (CHR ''/'' # (t @ join_path ts)) = [] # segs" by simp
    then have t: "split_str CHR ''/'' (t @ join_path ts) = segs" by simp
    show ?thesis
      unfolding e using s t by (simp add: split_str_append)
  qed
qed

lemma walk_existing:
  "children_at path acts = Some cs \<Longrightarrow>
   \<exists>acts'. walk parents activity uuid4 path leaf n acts = (None, acts', Suc n) \<and>
           children_at path acts' = Some (dict_set cs leaf (uuid4 n, Activities []))"
proof (induction path arbitrary: acts)
  case Nil
  then show ?case by (cases acts) simp
next
  case (Cons c path)
  obtain cs0 where acts: "acts = Activities cs0" by (cases acts)
  from Cons.prems acts obtain aid sub where c: "map_of cs0 c = Some (aid, sub)" and sub: "children_at path sub = Some cs"
    by (auto split: option.splits)
  from Cons.IH [OF sub] obtain sub' where
    w: "walk parents activity uuid4 path leaf n sub = (None, sub', Suc n)" and
    c': "children_at path sub' = Some (dict_set cs leaf (uuid4 n, Activities []))" by blast
  show ?case
    using acts c w c' by (simp add: map_of_dict_set)
qed

text \<open>
  C8 (as the code has it). A category is a dictionary, so the names of its children are
  distinct. When the last name of a valid absolute path is the name of a child of the
  category the path leads to, \<^verbatim>\<open>new_activity\<close> assigns a new leaf with the next generated
  identifier to that name: the category keeps the names it had, and the child of that
  name is the new leaf, with no children.
\<close>

theorem new_activity_existing_leaf:
  assumes valid: "\<forall>seg\<in>set (path @ [leaf]). seg \<noteq> [] \<and> CHR ''/'' \<notin> set seg"
    and dest: "children_at path activities = Some cs"
    and old: "leaf \<in> set (map fst cs)"
  shows "\<exists>activities'.
           new_activity uuid4 (join_path (path @ [leaf])) parents n activities = (None, activities', Suc n) \<and>
           children_at path activities' = Some (dict_set cs leaf (uuid4 n, Activities [])) \<and>
           map fst (dict_set cs leaf (uuid4 n, Activities [])) = map fst cs \<and>
           map_of (dict_set cs leaf (uuid4 n, Activities [])) leaf = Some (uuid4 n, Activities [])"
proof -
  from valid have "\<forall>seg\<in>set (path @ [leaf]). CHR ''/'' \<notin> set seg" by blast
  then have sp: "tl (split_str CHR ''/'' (join_path (path @ [leaf]))) = path @ [leaf]"
    by (simp add: split_str_join)
  from valid have ne: "[] \<notin> set (path @ [leaf])" by blast
  have na: "new_activity uuid4 (join_path (path @ [leaf])) parents n activities =
      walk parents (join_path (path @ [leaf])) uuid4 path leaf n activities"
    unfolding new_activity_def Let_def sp using ne by simp
  from walk_existing [OF dest, of parents "join_path (path @ [leaf])" uuid4 leaf n]
  obtain acts' where "walk parents (join_path (path @ [leaf])) uuid4 path leaf n activities = (None, acts', Suc n)"
    and "children_at path acts' = Some (dict_set cs leaf (uuid4 n, Activities []))" by blast
  with na old show ?thesis
    by (simp add: keys_dict_set map_of_dict_set)
qed

theorem new_activity_existing_leaf_witness:
  "children_at [''work''] work_catalog = Some [(''x'', ''id-x'', Activities [])] \<and>
   ''x'' \<in> set (map fst [(''x'', ''id-x'', Activities [])]) \<and>
   (\<exists>activities'.
      new_activity uuid_ex ''/work/x'' False 0 work_catalog = (None, activities', Suc 0) \<and>
      children_at [''work''] activities' = Some [(''x'', uuid_ex 0, Activities [])])"
proof -
  have v: "\<forall>seg\<in>set ([''work''] @ [''x'']). seg \<noteq> [] \<and> CHR ''/'' \<notin> set seg" by simp
  have c: "children_at [''work''] work_catalog = Some [(''x'', ''id-x'', Activities [])]"
    by (simp add: work_catalog_def)
  have o: "''x'' \<in> set (map fst [(''x'', ''id-x'', Activities [])])" by simp
  from new_activity_existing_leaf [OF v c o, of uuid_ex False 0] c o
  show ?thesis by (simp add: join_path_def)
qed

text \<open>
  C8 as stated fails: creating \<^verbatim>\<open>/work\<close> in a hierarchy that has \<^verbatim>\<open>work\<close> with the
  child \<^verbatim>\<open>x\<close> leaves one node \<^verbatim>\<open>work\<close>, the new leaf; the identifier \<^verbatim>\<open>id-work\<close> and
  the child \<^verbatim>\<open>x\<close> are gone, and \<^verbatim>\<open>x\<close> is no longer found.
\<close>

theorem new_activity_keeps_sibling_counterexample:
  "new_activity uuid_ex ''/work'' True 0 work_catalog =
     (None, Activities [(''work'', ''uuid-0000'', Activities [])], 1) \<and>
   activity_id work_catalog ''x'' = Some ''id-x'' \<and>
   activity_id (Activities [(''work'', ''uuid-0000'', Activities [])]) ''x'' = None"
  by code_simp

section \<open>Starting and finishing activities\<close>

lemma map_of_fill_days:
  "map_of (fill_days U ts frag offsets timeline) d =
     (if d \<in> offset_day U ts ` set offsets then Some [frag] else map_of timeline d)"
  by (induction offsets arbitrary: timeline) (auto simp add: map_of_dict_set)

lemma map_of_set_end_other: "d' \<noteq> d \<Longrightarrow> map_of (set_end timeline d e) d' = map_of timeline d'"
  by (simp add: set_end_def map_of_dict_set split: option.splits)

lemma done_activity_ok:
  assumes "last_activity timeline = Inr (d, a)"
    and "\<not> date_str now < date_str (parse U (e_start a))"
  shows "done_activity U now timeline =
     (Inr (parse U (e_start a), now, e_name a),
      if date_str (parse U (e_start a)) \<noteq> date_str now
      then fill_days U (parse U (e_start a)) (fragment a now)
             [1 .. day now - day (parse U (e_start a))] (set_end timeline d (datetime_str now))
      else set_end timeline d (datetime_str now))"
  using assms by (simp add: done_activity_def Let_def)

text \<open>
  C4. When \<^verbatim>\<open>done\<close> completes the last entry of the timeline and the day the entry
  started on is before the day of the clock reading, it succeeds and, for every offset
  from 1 to the day of the month of the reading minus the day of the month of the start,
  the day \<^verbatim>\<open>utils.offset_day\<close> gives for that offset holds one entry: the identifier, the
  name and the start of the completed entry, the end of the clock reading, and the
  \<^verbatim>\<open>"previous"\<close> marker.
\<close>

theorem done_fills_days:
  assumes "last_activity timeline = Inr (d, a)"
    and "date_str (parse U (e_start a)) < date_str now"
  shows "fst (done_activity U now timeline) = Inr (parse U (e_start a), now, e_name a) \<and>
         (\<forall>k\<in>{1 .. day now - day (parse U (e_start a))}.
            map_of (snd (done_activity U now timeline)) (offset_day U (parse U (e_start a)) k) =
              Some [\<lparr>e_id = e_id a, e_name = e_name a, e_start = e_start a,
                      e_end = Some (datetime_str now), e_previous = Some ''''\<rparr>])"
proof -
  from assms(2) have ns: "\<not> date_str now < date_str (parse U (e_start a))"
    and ne: "date_str (parse U (e_start a)) \<noteq> date_str now" by auto
  show ?thesis
    unfolding done_activity_ok [OF assms(1) ns]
    using ne by (simp add: map_of_fill_days fragment_def)
qed

lemma dict_set_absent: "k \<notin> set (map fst d) \<Longrightarrow> dict_set d k v = d @ [(k, v)]"
  by (induction d k v rule: dict_set.induct) auto

lemma dict_set_last: "k \<notin> set (map fst d) \<Longrightarrow> dict_set (d @ [(k, v)]) k v' = d @ [(k, v')]"
  by (induction d) auto

lemma dict_set_same: "map_of d k = Some v \<Longrightarrow> dict_set d k v = d"
  by (induction d k v rule: dict_set.induct) (auto split: if_splits)

lemma set_dict_set: "set (dict_set d k v) \<subseteq> insert (k, v) (set d)"
  by (induction d k v rule: dict_set.induct) auto

lemma append_entry_eq:
  "append_entry timeline d a =
     (case map_of timeline d of
        None \<Rightarrow> timeline @ [(d, [a])]
      | Some as \<Rightarrow> dict_set timeline d (as @ [a]))"
proof (cases "map_of timeline d")
  case None
  then have nk: "d \<notin> set (map fst timeline)" by (simp add: map_of_eq_None_iff)
  have m: "map_of (dict_set timeline d []) d = Some []" by (simp add: map_of_dict_set)
  have "append_entry timeline d a = dict_set (dict_set timeline d []) d [a]"
    using None m by (simp add: append_entry_def Let_def)
  also have "\<dots> = timeline @ [(d, [a])]"
    by (simp only: dict_set_absent [OF nk] dict_set_last [OF nk])
  finally show ?thesis using None by simp
next
  case (Some as)
  then show ?thesis by (simp add: append_entry_def Let_def)
qed

lemma map_of_append_entry:
  "map_of (append_entry timeline d a) d' =
     (if d' = d then Some (day_part timeline d @ [a]) else map_of timeline d')"
proof (cases "map_of timeline d")
  case None
  then have m: "map_of (dict_set timeline d []) d = Some []" by (simp add: map_of_dict_set)
  have "append_entry timeline d a = dict_set (dict_set timeline d []) d [a]"
    using None m by (simp add: append_entry_def Let_def)
  then show ?thesis using None by (simp add: map_of_dict_set day_part_def)
next
  case (Some as)
  then show ?thesis by (simp add: append_entry_def Let_def map_of_dict_set day_part_def)
qed

lemma last_activity_Inr:
  "last_activity timeline = Inr (d, a) \<Longrightarrow>
   timeline \<noteq> [] \<and> d = last (sort (map fst timeline)) \<and>
   (\<exists>as. map_of timeline d = Some as \<and> as \<noteq> [] \<and> last as = a)"
  by (auto simp add: last_activity_def py_last_def dict_get_def split: if_splits option.splits)

lemma sort_keys_nonempty: "timeline \<noteq> [] \<Longrightarrow> sort (map fst timeline) \<noteq> []"
  by (metis Nil_is_map_conv length_0_conv length_sort)

lemma last_key_in: "timeline \<noteq> [] \<Longrightarrow> last (sort (map fst timeline)) \<in> set (map fst timeline)"
proof -
  assume "timeline \<noteq> []"
  then have "sort (map fst timeline) \<noteq> []" by (rule sort_keys_nonempty)
  then have "last (sort (map fst timeline)) \<in> set (sort (map fst timeline))" by (rule last_in_set)
  then show ?thesis by simp
qed

lemma last_activity_nonempty:
  assumes "all_nonempty timeline" and "timeline \<noteq> []"
  shows "\<exists>d a. last_activity timeline = Inr (d, a)"
proof -
  let ?d = "last (sort (map fst timeline))"
  from last_key_in [OF assms(2)] obtain as where as: "map_of timeline ?d = Some as"
    by (metis map_of_eq_None_iff not_None_eq set_map)
  then have "(?d, as) \<in> set timeline" by (rule map_of_SomeD)
  with assms(1) have "as \<noteq> []" by (auto simp add: all_nonempty_def)
  with as sort_keys_nonempty [OF assms(2)] show ?thesis
    by (simp add: last_activity_def py_last_def dict_get_def)
qed

lemma current_activity_Some:
  "current_activity timeline = Inr (Some b) \<Longrightarrow> \<exists>d. last_activity timeline = Inr (d, b) \<and> e_end b = None"
  by (auto simp add: current_activity_def split: if_splits sum.splits)

lemma map_of_set_end_same:
  "map_of timeline d = Some as \<Longrightarrow>
   map_of (set_end timeline d e) d = Some (butlast as @ [(last as)\<lparr>e_end := Some e\<rparr>])"
  by (simp add: set_end_def map_of_dict_set)

lemma keys_set_end: "map fst (set_end timeline d e) = map fst timeline"
  by (auto simp add: set_end_def keys_dict_set map_of_eq_None_iff split: option.splits)


lemma walk_parents_no_error: "fst (walk True activity uuid4 path leaf n acts) = None"
  by (induction True activity uuid4 path leaf n acts rule: walk.induct)
     (auto split: option.splits prod.splits)

lemma walk_error_unchanged:
  "walk parents activity uuid4 path leaf n acts = (Some e, acts', n') \<Longrightarrow> acts' = acts \<and> n' = n"
proof (induction parents activity uuid4 path leaf n acts arbitrary: acts' n' rule: walk.induct)
  case (1 parents activity uuid4 new_activity n current_category)
  then show ?case by simp
next
  case (2 parents activity uuid4 category path new_activity n current_category)
  show ?case
  proof (cases "map_of current_category category")
    case None
    show ?thesis
    proof (cases parents)
      case True
      with walk_parents_no_error [of activity uuid4 path new_activity "Suc n" "Activities []"] None "2.prems"
      show ?thesis by (auto split: prod.splits)
    next
      case False
      with None "2.prems" show ?thesis by simp
    qed
  next
    case (Some p)
    obtain aid children0 where p: "p = (aid, children0)" by (cases p)
    obtain err children n1 where w: "walk parents activity uuid4 path new_activity n children0 = (err, children, n1)"
      by (cases "walk parents activity uuid4 path new_activity n children0") auto
    from "2.prems" Some p w have err: "err = Some e" and a: "acts' = Activities (dict_set current_category category (aid, children))"
      and n: "n' = n1" by simp_all
    from "2.IH"(2) [OF Some p [symmetric] w [unfolded err]] have "children = children0" "n1 = n" by simp_all
    with a n Some p show ?thesis by (simp add: dict_set_same)
  qed
qed

lemma new_activity_error_unchanged:
  "fst (new_activity uuid4 activity parents n acts) \<noteq> None \<Longrightarrow>
   snd (new_activity uuid4 activity parents n acts) = (acts, n)"
proof -
  assume a: "fst (new_activity uuid4 activity parents n acts) \<noteq> None"
  let ?p = "tl (split_str CHR ''/'' activity)"
  show ?thesis
  proof (cases "[] \<in> set ?p \<or> ?p = []")
    case True
    then show ?thesis by (auto simp add: new_activity_def Let_def)
  next
    case False
    then have eq: "new_activity uuid4 activity parents n acts =
        walk parents activity uuid4 (butlast ?p) (last ?p) n acts"
      by (simp add: new_activity_def Let_def)
    obtain err acts' n' where w: "walk parents activity uuid4 (butlast ?p) (last ?p) n acts = (err, acts', n')"
      by (cases "walk parents activity uuid4 (butlast ?p) (last ?p) n acts") auto
    with a eq obtain e where "err = Some e" by auto
    with walk_error_unchanged w have "acts' = acts \<and> n' = n" by blast
    with eq w show ?thesis by simp
  qed
qed

lemma done_activity_TimelineError:
  assumes "done_activity U now timeline = (Inl (TimelineError m), timeline')"
  shows "\<exists>d a. last_activity timeline = Inr (d, a) \<and> date_str now < date_str (parse U (e_start a)) \<and>
               timeline' = set_end timeline d (datetime_str now)"
proof (cases "last_activity timeline")
  case (Inl e)
  with assms have "e = TimelineError m" by (simp add: done_activity_def)
  with Inl show ?thesis
    by (auto simp add: last_activity_def py_last_def dict_get_def split: if_splits option.splits)
next
  case (Inr p)
  obtain d a where p: "p = (d, a)" by (cases p)
  with Inr assms show ?thesis
    by (auto simp add: done_activity_def Let_def split: if_splits)
qed

text \<open>
  C3 (as the code has it). \<^verbatim>\<open>start\<close> on a name that is not in the hierarchy raises and
  leaves the timeline as it was. \<^verbatim>\<open>new_activity\<close>, when it raises (a malformed path, a
  missing ancestor without \<^verbatim>\<open>parents\<close>), leaves the hierarchy as it was and has
  generated no identifier. When \<^verbatim>\<open>done\<close> raises its \<^verbatim>\<open>TimelineError\<close>, the timeline
  has the days it had, every other day holds what it held, and the day of the last entry
  holds the entries it held, the last one changed in its \<^verbatim>\<open>"end"\<close> at most.
\<close>

theorem failed_operation_frame:
  "(activity_id activities activity = None \<longrightarrow>
      (\<exists>m. start U activities activity now_done now timeline = (Inl (TimelineError m), timeline))) \<and>
   (fst (new_activity uuid4 path parents n activities) \<noteq> None \<longrightarrow>
      snd (new_activity uuid4 path parents n activities) = (activities, n)) \<and>
   (done_activity U now timeline = (Inl (TimelineError m), timeline') \<longrightarrow>
      (\<exists>d a as e. last_activity timeline = Inr (d, a) \<and>
         map fst timeline' = map fst timeline \<and>
         (\<forall>d'. d' \<noteq> d \<longrightarrow> map_of timeline' d' = map_of timeline d') \<and>
         map_of timeline d = Some as \<and>
         map_of timeline' d = Some (butlast as @ [a\<lparr>e_end := e\<rparr>])))"
proof (intro conjI impI)
  assume "activity_id activities activity = None"
  then show "\<exists>m. start U activities activity now_done now timeline = (Inl (TimelineError m), timeline)"
    by (simp add: start_def)
next
  assume "fst (new_activity uuid4 path parents n activities) \<noteq> None"
  then show "snd (new_activity uuid4 path parents n activities) = (activities, n)"
    by (rule new_activity_error_unchanged)
next
  assume "done_activity U now timeline = (Inl (TimelineError m), timeline')"
  from done_activity_TimelineError [OF this] obtain d a where
    la: "last_activity timeline = Inr (d, a)" and t': "timeline' = set_end timeline d (datetime_str now)"
    by blast
  from last_activity_Inr [OF la] obtain as where as: "map_of timeline d = Some as" "last as = a" by blast
  show "\<exists>d a as e. last_activity timeline = Inr (d, a) \<and>
         map fst timeline' = map fst timeline \<and>
         (\<forall>d'. d' \<noteq> d \<longrightarrow> map_of timeline' d' = map_of timeline d') \<and>
         map_of timeline d = Some as \<and>
         map_of timeline' d = Some (butlast as @ [a\<lparr>e_end := e\<rparr>])"
    using la t' as
    by (intro exI [of _ d] exI [of _ a] exI [of _ as] exI [of _ "Some (datetime_str now)"])
       (simp add: keys_set_end map_of_set_end_other map_of_set_end_same)
qed

lemma all_nonempty_dict_set:
  "all_nonempty timeline \<Longrightarrow> v \<noteq> [] \<Longrightarrow> all_nonempty (dict_set timeline k v)"
  using set_dict_set [of timeline k v] by (auto simp add: all_nonempty_def)

lemma all_nonempty_set_end: "all_nonempty timeline \<Longrightarrow> all_nonempty (set_end timeline d e)"
  by (simp add: set_end_def all_nonempty_dict_set split: option.splits)

lemma all_nonempty_fill_days:
  "all_nonempty timeline \<Longrightarrow> all_nonempty (fill_days U ts frag offsets timeline)"
  by (induction offsets arbitrary: timeline) (simp_all add: all_nonempty_dict_set)

lemma all_nonempty_done:
  "all_nonempty timeline \<Longrightarrow> all_nonempty (snd (done_activity U now timeline))"
  by (simp add: done_activity_def Let_def all_nonempty_set_end all_nonempty_fill_days
      split: sum.splits prod.splits)

lemma all_nonempty_append_entry:
  "all_nonempty timeline \<Longrightarrow> all_nonempty (append_entry timeline d a)"
  by (auto simp add: append_entry_eq all_nonempty_dict_set split: option.splits)
     (simp add: all_nonempty_def)

lemma all_nonempty_start:
  "all_nonempty timeline \<Longrightarrow> all_nonempty (snd (start U activities activity now_done now timeline))"
proof -
  assume a: "all_nonempty timeline"
  note d = all_nonempty_done [OF a, of U now_done]
  show ?thesis
    using a d
    by (auto simp add: start_def all_nonempty_append_entry split: option.splits sum.splits prod.splits)
qed

lemma all_nonempty_step:
  "all_nonempty timeline \<Longrightarrow> all_nonempty (step U activities timeline x)"
  by (cases x) (simp_all add: all_nonempty_start all_nonempty_done)

lemma all_nonempty_run:
  "all_nonempty timeline \<Longrightarrow> all_nonempty (run U activities ops timeline)"
  unfolding run_def
  by (induction ops arbitrary: timeline) (simp_all add: all_nonempty_step)

text \<open>
  C10 (as the code has it). If every day of the timeline has an entry, then after every
  sequence of calls of \<^verbatim>\<open>start\<close>, \<^verbatim>\<open>done\<close>, \<^verbatim>\<open>recent_activities\<close> and
  \<^verbatim>\<open>current_activity\<close> every day still has one and \<^verbatim>\<open>current_activity\<close> returns
  without an exception. On a timeline that is not empty the expression that fetches the
  last entry of the greatest day (in \<^verbatim>\<open>done\<close> and in \<^verbatim>\<open>current_activity\<close>) yields an
  entry, and \<^verbatim>\<open>done\<close> returns or raises its \<^verbatim>\<open>TimelineError\<close>, at every clock reading:
  it raises no \<^verbatim>\<open>IndexError\<close> and no \<^verbatim>\<open>KeyError\<close>.
\<close>

theorem buckets_stay_nonempty:
  assumes "all_nonempty timeline"
  shows "all_nonempty (run U activities ops timeline) \<and>
         (\<exists>r. current_activity (run U activities ops timeline) = Inr r) \<and>
         (run U activities ops timeline \<noteq> [] \<longrightarrow>
            (\<exists>d a. last_activity (run U activities ops timeline) = Inr (d, a) \<and>
               (\<forall>now. fst (done_activity U now (run U activities ops timeline)) =
                  (if date_str now < date_str (parse U (e_start a))
                   then Inl (TimelineError ''Finishing activity before it was started. Maybe system clock is wrong?'')
                   else Inr (parse U (e_start a), now, e_name a)))))"
proof -
  let ?t = "run U activities ops timeline"
  have n: "all_nonempty ?t" using assms by (rule all_nonempty_run)
  have l: "?t \<noteq> [] \<longrightarrow>
            (\<exists>d a. last_activity ?t = Inr (d, a) \<and>
               (\<forall>now. fst (done_activity U now ?t) =
                  (if date_str now < date_str (parse U (e_start a))
                   then Inl (TimelineError ''Finishing activity before it was started. Maybe system clock is wrong?'')
                   else Inr (parse U (e_start a), now, e_name a))))"
  proof
    assume "?t \<noteq> []"
    from last_activity_nonempty [OF n this] obtain d a where la: "last_activity ?t = Inr (d, a)" by blast
    then have "\<forall>now. fst (done_activity U now ?t) =
                  (if date_str now < date_str (parse U (e_start a))
                   then Inl (TimelineError ''Finishing activity before it was started. Maybe system clock is wrong?'')
                   else Inr (parse U (e_start a), now, e_name a))"
      by (simp add: done_activity_def Let_def)
    with la show "\<exists>d a. last_activity ?t = Inr (d, a) \<and>
               (\<forall>now. fst (done_activity U now ?t) =
                  (if date_str now < date_str (parse U (e_start a))
                   then Inl (TimelineError ''Finishing activity before it was started. Maybe system clock is wrong?'')
                   else Inr (parse U (e_start a), now, e_name a)))" by blast
  qed
  have "\<exists>r. current_activity ?t = Inr r"
  proof (cases "?t = []")
    case True
    then show ?thesis by (simp add: current_activity_def)
  next
    case False
    with l obtain d a where "last_activity ?t = Inr (d, a)" by blast
    with False show ?thesis by (simp add: current_activity_def)
  qed
  with n l show ?thesis by blast
qed

lemma done_bucket:
  assumes la: "last_activity timeline = Inr (d, b)"
    and ns: "\<not> date_str now < date_str (parse U (e_start b))"
  shows "\<exists>x\<in>set (day_part (snd (done_activity U now timeline)) d).
           e_id x = e_id b \<and> e_name x = e_name b \<and> e_start x = e_start b \<and>
           e_end x = Some (datetime_str now)"
proof -
  from last_activity_Inr [OF la] obtain as where as: "map_of timeline d = Some as" "last as = b" by blast
  let ?t1 = "set_end timeline d (datetime_str now)"
  have m1: "map_of ?t1 d = Some (butlast as @ [b\<lparr>e_end := Some (datetime_str now)\<rparr>])"
    using map_of_set_end_same [OF as(1)] as(2) by simp
  show ?thesis
    unfolding done_activity_ok [OF la ns]
    by (auto simp add: day_part_def map_of_fill_days m1 fragment_def)
qed

lemma day_part_append_entry:
  "day_part (append_entry timeline d a) d' =
     (if d' = d then day_part timeline d @ [a] else day_part timeline d')"
  unfolding day_part_def [of "append_entry timeline d a"] map_of_append_entry
  by (simp add: day_part_def)

text \<open>
  C5 (as the code has it). When \<^verbatim>\<open>start\<close> is called for an activity of the hierarchy
  while an entry \<open>b\<close> is going on, and the start day of \<open>b\<close> is not after the day of the
  clock reading \<^verbatim>\<open>done\<close> takes, the call returns the completed activity with that
  reading as its end; the day of \<open>b\<close> holds an entry with the identifier, name and start
  of \<open>b\<close> whose end is that reading; and the last entry of the day of the second reading,
  the one \<^verbatim>\<open>start\<close> takes itself, is the new ongoing entry, started at the second
  reading. The end and the new start are equal when the two readings are.
\<close>

theorem start_completes_ongoing:
  assumes aid: "activity_id activities activity = Some aid"
    and cur: "current_activity timeline = Inr (Some b)"
    and ns: "\<not> date_str now_done < date_str (parse U (e_start b))"
  shows "\<exists>d. last_activity timeline = Inr (d, b) \<and>
           fst (start U activities activity now_done now timeline) =
             Inr (Some (parse U (e_start b), now_done, e_name b)) \<and>
           (\<exists>x\<in>set (day_part (snd (start U activities activity now_done now timeline)) d).
              e_id x = e_id b \<and> e_name x = e_name b \<and> e_start x = e_start b \<and>
              e_end x = Some (datetime_str now_done)) \<and>
           (\<exists>xs. map_of (snd (start U activities activity now_done now timeline)) (date_str now) =
              Some (xs @ [\<lparr>e_id = aid, e_name = activity, e_start = datetime_str now,
                           e_end = None, e_previous = None\<rparr>]))"
proof -
  from current_activity_Some [OF cur] obtain d where la: "last_activity timeline = Inr (d, b)" by blast
  let ?new = "\<lparr>e_id = aid, e_name = activity, e_start = datetime_str now, e_end = None, e_previous = None\<rparr>"
  obtain t1 where dn: "done_activity U now_done timeline = (Inr (parse U (e_start b), now_done, e_name b), t1)"
    using done_activity_ok [OF la ns] by simp
  have st: "start U activities activity now_done now timeline =
      (Inr (Some (parse U (e_start b), now_done, e_name b)), append_entry t1 (date_str now) ?new)"
    unfolding start_def using aid cur dn by simp
  from done_bucket [OF la ns] dn obtain x where x: "x \<in> set (day_part t1 d)"
    "e_id x = e_id b \<and> e_name x = e_name b \<and> e_start x = e_start b \<and> e_end x = Some (datetime_str now_done)"
    by auto
  have "x \<in> set (day_part (append_entry t1 (date_str now) ?new) d)"
    using x(1) by (auto simp add: day_part_append_entry)
  with x(2) la show ?thesis
    unfolding st by (auto simp add: map_of_append_entry)
qed

lemma distinct_dict_set: "distinct (map fst d) \<Longrightarrow> distinct (map fst (dict_set d k v))"
  by (simp add: keys_dict_set)

lemma set_dict_set_distinct:
  "distinct (map fst d) \<Longrightarrow> set (dict_set d k v) = insert (k, v) {p \<in> set d. fst p \<noteq> k}"
  by (induction d k v rule: dict_set.induct) (auto simp add: rev_image_eqI)

lemma in_dict_map_of: "distinct (map fst d) \<Longrightarrow> (k, v) \<in> set d \<longleftrightarrow> map_of d k = Some v"
  by (auto dest: map_of_SomeD)

lemma sorted_le_last: "sorted xs \<Longrightarrow> x \<in> set xs \<Longrightarrow> x \<le> last (xs::string list)"
  by (induction xs) (auto simp add: last_in_set)

lemma all_closed_iff:
  "all_closed timeline \<longleftrightarrow> (\<forall>d es a. (d, es) \<in> set timeline \<longrightarrow> a \<in> set es \<longrightarrow> e_end a \<noteq> None)"
  unfolding all_closed_def by (rule iffI) (blast, fast)

lemma closed_except_last_iff:
  "closed_except_last timeline \<longleftrightarrow>
     (\<forall>d es i. (d, es) \<in> set timeline \<longrightarrow> i < length es \<longrightarrow> e_end (es ! i) = None \<longrightarrow>
        d = last (sort (map fst timeline)) \<and> Suc i = length es)"
  unfolding closed_except_last_def by (rule iffI) (fastforce, fastforce)

lemma last_day_eq:
  assumes "d \<in> set ks" and "\<forall>k\<in>set ks. k \<le> d"
  shows "last (sort ks) = (d::string)"
proof -
  from assms(1) have ne: "sort ks \<noteq> []" by (metis empty_iff empty_set set_sort)
  then have "last (sort ks) \<in> set ks" by (metis last_in_set set_sort)
  with assms(2) have "last (sort ks) \<le> d" by blast
  moreover have "d \<le> last (sort ks)"
    using assms(1) by (simp add: sorted_le_last)
  ultimately show ?thesis by simp
qed

lemma all_closed_dict_set:
  "all_closed timeline \<Longrightarrow> \<forall>a\<in>set v. e_end a \<noteq> None \<Longrightarrow> all_closed (dict_set timeline k v)"
  using set_dict_set [of timeline k v] unfolding all_closed_iff by blast

lemma all_closed_fill_days:
  "all_closed timeline \<Longrightarrow> e_end frag \<noteq> None \<Longrightarrow> all_closed (fill_days U ts frag offsets timeline)"
  by (induction offsets arbitrary: timeline) (simp_all add: all_closed_dict_set)

lemma all_closed_imp: "all_closed timeline \<Longrightarrow> closed_except_last timeline"
  unfolding all_closed_iff closed_except_last_iff by (meson nth_mem)

lemma all_closed_set_end:
  assumes dist: "distinct (map fst timeline)"
    and cel: "closed_except_last timeline"
    and la: "last_activity timeline = Inr (d, a)"
  shows "all_closed (set_end timeline d e)"
proof -
  from last_activity_Inr [OF la] obtain as where
    d: "d = last (sort (map fst timeline))" and as: "map_of timeline d = Some as" "as \<noteq> []" "last as = a"
    by blast
  let ?new = "butlast as @ [a\<lparr>e_end := Some e\<rparr>]"
  have se: "set_end timeline d e = dict_set timeline d ?new"
    using as by (simp add: set_end_def)
  have mem: "(d, as) \<in> set timeline" using as(1) by (rule map_of_SomeD)
  have new: "\<forall>x\<in>set ?new. e_end x \<noteq> None"
  proof
    fix x assume "x \<in> set ?new"
    then consider "x \<in> set (butlast as)" | "x = a\<lparr>e_end := Some e\<rparr>" by auto
    then show "e_end x \<noteq> None"
    proof cases
      case 1
      then obtain i where i: "i < length (butlast as)" "butlast as ! i = x"
        by (auto simp add: in_set_conv_nth)
      then have il: "i < length as" and neq: "Suc i \<noteq> length as" by simp_all
      from i have x: "as ! i = x" by (simp add: nth_butlast)
      show ?thesis
      proof
        assume "e_end x = None"
        with cel mem il x have "Suc i = length as"
          unfolding closed_except_last_iff by blast
        with neq show False by simp
      qed
    next
      case 2
      then show ?thesis by simp
    qed
  qed
  have old: "\<And>d' es x. (d', es) \<in> set timeline \<Longrightarrow> d' \<noteq> d \<Longrightarrow> x \<in> set es \<Longrightarrow> e_end x \<noteq> None"
  proof
    fix d' es x assume p: "(d', es) \<in> set timeline" "d' \<noteq> d" "x \<in> set es" "e_end x = None"
    from p(3) obtain i where "i < length es" "es ! i = x" by (auto simp add: in_set_conv_nth)
    with cel p(1) p(4) d have "d' = d" unfolding closed_except_last_iff by blast
    with p(2) show False by simp
  qed
  show ?thesis
    unfolding se all_closed_iff set_dict_set_distinct [OF dist]
    using new old by auto
qed

lemma starts_in_iff:
  "starts_in S timeline \<longleftrightarrow> (\<forall>d es a. (d, es) \<in> set timeline \<longrightarrow> a \<in> set es \<longrightarrow> e_start a \<in> S)"
  unfolding starts_in_def by (rule iffI) (fastforce, fastforce)

lemma starts_in_dict_set:
  "starts_in S timeline \<Longrightarrow> \<forall>a\<in>set v. e_start a \<in> S \<Longrightarrow> starts_in S (dict_set timeline k v)"
  using set_dict_set [of timeline k v] unfolding starts_in_iff by blast

lemma starts_in_fill_days:
  "starts_in S timeline \<Longrightarrow> e_start frag \<in> S \<Longrightarrow> starts_in S (fill_days U ts frag offsets timeline)"
  by (induction offsets arbitrary: timeline) (simp_all add: starts_in_dict_set)

lemma last_activity_bucket:
  assumes "last_activity timeline = Inr (d, a)"
  shows "\<exists>as. (d, as) \<in> set timeline \<and> a \<in> set as \<and> map_of timeline d = Some as \<and> as \<noteq> [] \<and>
           last as = a \<and>
           set_end timeline d e = dict_set timeline d (butlast as @ [a\<lparr>e_end := Some e\<rparr>])"
proof -
  from last_activity_Inr [OF assms] obtain as where as: "map_of timeline d = Some as" "as \<noteq> []" "last as = a"
    by blast
  then have "(d, as) \<in> set timeline" "a \<in> set as" by (auto dest: map_of_SomeD)
  with as show ?thesis by (auto simp add: set_end_def)
qed

lemma starts_in_last:
  assumes "starts_in S timeline" and "last_activity timeline = Inr (d, a)"
  shows "e_start a \<in> S"
  using last_activity_bucket [OF assms(2)] assms(1) unfolding starts_in_iff by blast

lemma starts_in_set_end:
  assumes "starts_in S timeline" and la: "last_activity timeline = Inr (d, a)"
  shows "starts_in S (set_end timeline d e)"
proof -
  from last_activity_bucket [OF la, of e] obtain as where
    mem: "(d, as) \<in> set timeline" and a: "a \<in> set as"
    and se: "set_end timeline d e = dict_set timeline d (butlast as @ [a\<lparr>e_end := Some e\<rparr>])"
    by blast
  have "\<forall>x\<in>set (butlast as @ [a\<lparr>e_end := Some e\<rparr>]). e_start x \<in> S"
  proof
    fix x assume "x \<in> set (butlast as @ [a\<lparr>e_end := Some e\<rparr>])"
    then consider "x \<in> set (butlast as)" | "x = a\<lparr>e_end := Some e\<rparr>" by auto
    then show "e_start x \<in> S"
    proof cases
      case 1
      then have "x \<in> set as" by (rule in_set_butlastD)
      with assms(1) mem show ?thesis unfolding starts_in_iff by blast
    next
      case 2
      from assms(1) mem a have "e_start a \<in> S" unfolding starts_in_iff by blast
      with 2 show ?thesis by simp
    qed
  qed
  with assms(1) show ?thesis unfolding se by (rule starts_in_dict_set)
qed

lemma key_set_dict_set: "fst ` set (dict_set d k v) = insert k (fst ` set d)"
  by (induction d k v rule: dict_set.induct) auto

lemma keys_fill_days:
  "set (map fst (fill_days U ts frag offsets timeline)) =
     set (map fst timeline) \<union> offset_day U ts ` set offsets"
  by (induction offsets arbitrary: timeline) (simp_all add: key_set_dict_set)

lemma distinct_fill_days:
  "distinct (map fst timeline) \<Longrightarrow> distinct (map fst (fill_days U ts frag offsets timeline))"
  by (induction offsets arbitrary: timeline) (simp_all add: distinct_dict_set)

text \<open>What a call of done leaves, when there is a last entry.\<close>

lemma done_step:
  assumes dist: "distinct (map fst timeline)"
    and cel: "closed_except_last timeline"
    and st: "starts_in (set starts) timeline"
    and up: "days_upto (date_str now) timeline"
    and now: "now \<in> set nows"
    and fb: "fills_bounded U starts nows"
    and la: "last_activity timeline = Inr (d, a)"
  shows "distinct (map fst (snd (done_activity U now timeline))) \<and>
         all_closed (snd (done_activity U now timeline)) \<and>
         starts_in (set starts) (snd (done_activity U now timeline)) \<and>
         days_upto (date_str now) (snd (done_activity U now timeline))"
proof -
  let ?ts = "parse U (e_start a)"
  let ?t1 = "set_end timeline d (datetime_str now)"
  have d1: "distinct (map fst ?t1)" using dist by (simp add: keys_set_end)
  have c1: "all_closed ?t1" using dist cel la by (rule all_closed_set_end)
  have s1: "starts_in (set starts) ?t1" using st la by (rule starts_in_set_end)
  have u1: "days_upto (date_str now) ?t1" using up by (simp add: days_upto_def keys_set_end)
  have sa: "e_start a \<in> set starts" using st la by (rule starts_in_last)
  show ?thesis
  proof (cases "date_str now < date_str ?ts")
    case True
    then have "snd (done_activity U now timeline) = ?t1"
      using la by (simp add: done_activity_def Let_def)
    with d1 c1 s1 u1 show ?thesis by simp
  next
    case ns: False
    show ?thesis
    proof (cases "date_str ?ts = date_str now")
      case True
      then have "snd (done_activity U now timeline) = ?t1"
        using done_activity_ok [OF la ns] by simp
      with d1 c1 s1 u1 show ?thesis by simp
    next
      case False
      let ?offs = "[1 .. day now - day ?ts]"
      let ?t2 = "fill_days U ?ts (fragment a now) ?offs ?t1"
      from False have t2: "snd (done_activity U now timeline) = ?t2"
        using done_activity_ok [OF la ns] by simp
      from False ns have lt: "date_str ?ts < date_str now" by simp
      with fb sa now have bound: "\<forall>k\<in>set ?offs. offset_day U ?ts k \<le> date_str now"
        unfolding fills_bounded_def by blast
      have "days_upto (date_str now) ?t2"
        using u1 bound unfolding days_upto_def keys_fill_days by blast
      moreover have "all_closed ?t2" using c1 by (rule all_closed_fill_days) (simp add: fragment_def)
      moreover have "starts_in (set starts) ?t2"
        using s1 by (rule starts_in_fill_days) (simp add: fragment_def sa)
      moreover have "distinct (map fst ?t2)" using d1 by (rule distinct_fill_days)
      ultimately show ?thesis unfolding t2 by simp
    qed
  qed
qed

lemma done_unchanged: "last_activity timeline = Inl e \<Longrightarrow> snd (done_activity U now timeline) = timeline"
  by (simp add: done_activity_def)

text \<open>Appending the new entry to a timeline whose entries are all completed.\<close>

lemma set_append_entry:
  assumes "distinct (map fst timeline)"
  shows "set (append_entry timeline d a) = insert (d, day_part timeline d @ [a]) {p \<in> set timeline. fst p \<noteq> d}"
proof (cases "map_of timeline d")
  case None
  then have "d \<notin> fst ` set timeline" by (simp add: map_of_eq_None_iff)
  then have "{p \<in> set timeline. fst p \<noteq> d} = set timeline" by force
  with None show ?thesis by (simp add: append_entry_eq day_part_def)
next
  case (Some as)
  with assms show ?thesis by (simp add: append_entry_eq day_part_def set_dict_set_distinct)
qed

lemma keys_append_entry:
  "set (map fst (append_entry timeline d a)) = insert d (set (map fst timeline))"
proof (cases "map_of timeline d")
  case None
  then show ?thesis by (simp add: append_entry_eq)
next
  case (Some as)
  then show ?thesis by (simp add: append_entry_eq key_set_dict_set)
qed

lemma distinct_append_entry:
  "distinct (map fst timeline) \<Longrightarrow> distinct (map fst (append_entry timeline d a))"
  by (auto simp add: append_entry_eq keys_dict_set map_of_eq_None_iff split: option.splits)

lemma append_step:
  assumes dist: "distinct (map fst timeline)"
    and cl: "all_closed timeline"
    and st: "starts_in S timeline"
    and up: "days_upto d timeline"
    and a: "e_start a \<in> S"
  shows "distinct (map fst (append_entry timeline d a)) \<and>
         closed_except_last (append_entry timeline d a) \<and>
         starts_in S (append_entry timeline d a) \<and>
         days_upto d (append_entry timeline d a)"
proof -
  let ?t = "append_entry timeline d a"
  let ?as = "day_part timeline d"
  have keys: "set (map fst ?t) = insert d (set (map fst timeline))" by (rule keys_append_entry)
  have up': "days_upto d ?t" using up unfolding days_upto_def keys by simp
  then have ld: "last (sort (map fst ?t)) = d"
    unfolding days_upto_def using keys by (intro last_day_eq) blast+
  have old: "\<And>x. x \<in> set ?as \<Longrightarrow> e_end x \<noteq> None \<and> e_start x \<in> S"
  proof -
    fix x assume x: "x \<in> set ?as"
    then obtain as where "map_of timeline d = Some as" "x \<in> set as"
      by (cases "map_of timeline d") (simp_all add: day_part_def)
    then have "(d, as) \<in> set timeline" "x \<in> set as" by (auto dest: map_of_SomeD)
    with cl st show "e_end x \<noteq> None \<and> e_start x \<in> S"
      unfolding all_closed_iff starts_in_iff by blast
  qed
  have cel: "closed_except_last ?t"
    unfolding closed_except_last_iff ld set_append_entry [OF dist]
  proof (intro allI impI)
    fix d' es i
    assume mem: "(d', es) \<in> insert (d, ?as @ [a]) {p \<in> set timeline. fst p \<noteq> d}"
      and i: "i < length es" and op: "e_end (es ! i) = None"
    show "d' = d \<and> Suc i = length es"
    proof (cases "(d', es) = (d, ?as @ [a])")
      case True
      then have es: "es = ?as @ [a]" and d': "d' = d" by simp_all
      have "\<not> i < length ?as"
      proof
        assume l: "i < length ?as"
        then have "es ! i = ?as ! i" using es by (simp add: nth_append)
        moreover have "?as ! i \<in> set ?as" using l by simp
        ultimately show False using old op by metis
      qed
      with i es d' show ?thesis by simp
    next
      case False
      with mem have "(d', es) \<in> set timeline" by blast
      moreover have "es ! i \<in> set es" using i by simp
      ultimately have "e_end (es ! i) \<noteq> None" using cl unfolding all_closed_iff by blast
      with op show ?thesis by simp
    qed
  qed
  have "starts_in S ?t"
    unfolding starts_in_iff set_append_entry [OF dist]
  proof (intro allI impI)
    fix d' es x
    assume mem: "(d', es) \<in> insert (d, ?as @ [a]) {p \<in> set timeline. fst p \<noteq> d}" and x: "x \<in> set es"
    show "e_start x \<in> S"
    proof (cases "(d', es) = (d, ?as @ [a])")
      case True
      with x have "x \<in> set ?as \<or> x = a" by auto
      with old a show ?thesis by blast
    next
      case False
      with mem have "(d', es) \<in> set timeline" by blast
      with st x show ?thesis unfolding starts_in_iff by blast
    qed
  qed
  with cel up' distinct_append_entry [OF dist] show ?thesis by simp
qed

text \<open>With no ongoing activity, every entry is completed.\<close>

lemma idle_all_closed:
  assumes dist: "distinct (map fst timeline)"
    and cel: "closed_except_last timeline"
    and cur: "current_activity timeline = Inr None"
  shows "all_closed timeline"
  unfolding all_closed_iff
proof (intro allI impI)
  fix d es x
  assume mem: "(d, es) \<in> set timeline" and x: "x \<in> set es"
  show "e_end x \<noteq> None"
  proof
    assume op: "e_end x = None"
    from x obtain i where i: "i < length es" "es ! i = x" by (auto simp add: in_set_conv_nth)
    with cel mem op have d: "d = last (sort (map fst timeline))" and l: "Suc i = length es"
      unfolding closed_except_last_iff by blast+
    from mem have ne: "timeline \<noteq> []" by auto
    with cur obtain d' a where la: "last_activity timeline = Inr (d', a)" and cl: "e_end a \<noteq> None"
      by (auto simp add: current_activity_def split: sum.splits if_splits)
    from last_activity_Inr [OF la] obtain as where
      d': "d' = last (sort (map fst timeline))" and as: "map_of timeline d' = Some as" "last as = a"
      by blast
    from mem dist have "map_of timeline d = Some es" by simp
    with as d d' have "as = es" by simp
    with as(2) i l have "a = x" by (metis diff_Suc_1 last_conv_nth length_0_conv nat.distinct(1))
    with cl op show False by simp
  qed
qed

lemma days_upto_mono: "days_upto b timeline \<Longrightarrow> b \<le> c \<Longrightarrow> days_upto c timeline"
  unfolding days_upto_def by (meson order_trans)

lemma snd_start:
  "snd (start U activities activity now_done now timeline) =
     (case activity_id activities activity of
        None \<Rightarrow> timeline
      | Some aid \<Rightarrow>
          (case current_activity timeline of
             Inl e \<Rightarrow> timeline
           | Inr None \<Rightarrow>
               append_entry timeline (date_str now)
                 \<lparr>e_id = aid, e_name = activity, e_start = datetime_str now, e_end = None, e_previous = None\<rparr>
           | Inr (Some b) \<Rightarrow>
               (case fst (done_activity U now_done timeline) of
                  Inl e \<Rightarrow> snd (done_activity U now_done timeline)
                | Inr r \<Rightarrow>
                    append_entry (snd (done_activity U now_done timeline)) (date_str now)
                      \<lparr>e_id = aid, e_name = activity, e_start = datetime_str now,
                       e_end = None, e_previous = None\<rparr>)))"
  by (simp add: start_def split: option.splits sum.splits prod.splits)

lemma start_step:
  assumes dist: "distinct (map fst timeline)"
    and cel: "closed_except_last timeline"
    and st: "starts_in (set starts) timeline"
    and up: "days_upto (date_str now_done) timeline"
    and le: "date_str now_done \<le> date_str now"
    and nd: "now_done \<in> set nows"
    and fb: "fills_bounded U starts nows"
    and ns: "datetime_str now \<in> set starts"
  shows "distinct (map fst (snd (start U activities activity now_done now timeline))) \<and>
         closed_except_last (snd (start U activities activity now_done now timeline)) \<and>
         starts_in (set starts) (snd (start U activities activity now_done now timeline)) \<and>
         days_upto (date_str now) (snd (start U activities activity now_done now timeline))"
proof -
  have up': "days_upto (date_str now) timeline" using up le by (rule days_upto_mono)
  have same: "distinct (map fst timeline) \<and> closed_except_last timeline \<and>
      starts_in (set starts) timeline \<and> days_upto (date_str now) timeline"
    using dist cel st up' by simp
  show ?thesis
  proof (cases "activity_id activities activity")
    case None
    with same show ?thesis by (simp add: snd_start)
  next
    case (Some aid)
    let ?new = "\<lparr>e_id = aid, e_name = activity, e_start = datetime_str now, e_end = None, e_previous = None\<rparr>"
    have new: "e_start ?new \<in> set starts" using ns by simp
    show ?thesis
    proof (cases "current_activity timeline")
      case (Inl e)
      with Some same show ?thesis by (simp add: snd_start)
    next
      case (Inr cur)
      show ?thesis
      proof (cases cur)
        case None
        with Inr have idle: "current_activity timeline = Inr None" by simp
        from idle_all_closed [OF dist cel idle] have cl: "all_closed timeline" .
        from append_step [OF dist cl st up' new] Some idle show ?thesis
          by (simp add: snd_start)
      next
        case (Some b)
        with Inr have cur: "current_activity timeline = Inr (Some b)" by simp
        from current_activity_Some [OF cur] obtain d where la: "last_activity timeline = Inr (d, b)" by blast
        let ?t1 = "snd (done_activity U now_done timeline)"
        from done_step [OF dist cel st up nd fb la]
        have d1: "distinct (map fst ?t1)" and c1: "all_closed ?t1"
          and s1: "starts_in (set starts) ?t1" and u1: "days_upto (date_str now_done) ?t1"
          by simp_all
        have u1': "days_upto (date_str now) ?t1" using u1 le by (rule days_upto_mono)
        show ?thesis
        proof (cases "fst (done_activity U now_done timeline)")
          case (Inl e)
          with \<open>activity_id activities activity = Some aid\<close> cur
          have "snd (start U activities activity now_done now timeline) = ?t1"
            by (simp add: snd_start)
          with d1 all_closed_imp [OF c1] s1 u1' show ?thesis by simp
        next
          case (Inr r)
          with \<open>activity_id activities activity = Some aid\<close> cur
          have "snd (start U activities activity now_done now timeline) =
              append_entry ?t1 (date_str now) ?new"
            by (simp add: snd_start)
          with append_step [OF d1 c1 s1 u1' new] show ?thesis by simp
        qed
      qed
    qed
  qed
qed

lemma done_step_any:
  assumes dist: "distinct (map fst timeline)"
    and cel: "closed_except_last timeline"
    and st: "starts_in (set starts) timeline"
    and up: "days_upto (date_str now) timeline"
    and now: "now \<in> set nows"
    and fb: "fills_bounded U starts nows"
  shows "distinct (map fst (snd (done_activity U now timeline))) \<and>
         closed_except_last (snd (done_activity U now timeline)) \<and>
         starts_in (set starts) (snd (done_activity U now timeline)) \<and>
         days_upto (date_str now) (snd (done_activity U now timeline))"
proof (cases "last_activity timeline")
  case (Inl e)
  with assms show ?thesis by (simp add: done_unchanged)
next
  case (Inr p)
  obtain d a where "p = (d, a)" by (cases p)
  with Inr have la: "last_activity timeline = Inr (d, a)" by simp
  from done_step [OF dist cel st up now fb la] show ?thesis
    by (simp add: all_closed_imp)
qed

lemma run_invariant:
  assumes fb: "fills_bounded U starts nows"
  shows "distinct (map fst timeline) \<Longrightarrow> closed_except_last timeline \<Longrightarrow>
         starts_in (set starts) timeline \<Longrightarrow>
         sorted (map date_str (readings ops)) \<Longrightarrow>
         \<forall>t\<in>set (readings ops). days_upto (date_str t) timeline \<Longrightarrow>
         set (readings ops) \<subseteq> set nows \<Longrightarrow>
         datetime_str ` set (readings ops) \<subseteq> set starts \<Longrightarrow>
         distinct (map fst (run U activities ops timeline)) \<and>
         closed_except_last (run U activities ops timeline)"
proof (induction ops arbitrary: timeline)
  case Nil
  then show ?case by (simp add: run_def)
next
  case (Cons x ops)
  have run: "run U activities (x # ops) timeline = run U activities ops (step U activities timeline x)"
    by (simp add: run_def)
  show ?case
  proof (cases x)
    case (Start activity now_done now)
    let ?t = "snd (start U activities activity now_done now timeline)"
    from Cons.prems(4) Start have le: "date_str now_done \<le> date_str now"
      and rest: "\<forall>t\<in>set (readings ops). date_str now \<le> date_str t"
      and srt: "sorted (map date_str (readings ops))" by auto
    from Cons.prems(5) Start have up: "days_upto (date_str now_done) timeline" by simp
    from Cons.prems(6) Start have nd: "now_done \<in> set nows" and sub: "set (readings ops) \<subseteq> set nows" by simp_all
    from Cons.prems(7) Start have ns: "datetime_str now \<in> set starts"
      and sub2: "datetime_str ` set (readings ops) \<subseteq> set starts" by simp_all
    from start_step [OF Cons.prems(1) Cons.prems(2) Cons.prems(3) up le nd fb ns, of activities activity]
    have d: "distinct (map fst ?t)" and c: "closed_except_last ?t" and s: "starts_in (set starts) ?t"
      and u: "days_upto (date_str now) ?t" by simp_all
    have u': "\<forall>t\<in>set (readings ops). days_upto (date_str t) ?t"
      using u rest by (blast intro: days_upto_mono)
    from Cons.IH [OF d c s srt u' sub sub2] show ?thesis
      unfolding run using Start by simp
  next
    case (Done now)
    let ?t = "snd (done_activity U now timeline)"
    from Cons.prems(4) Done have rest: "\<forall>t\<in>set (readings ops). date_str now \<le> date_str t"
      and srt: "sorted (map date_str (readings ops))" by auto
    from Cons.prems(5) Done have up: "days_upto (date_str now) timeline" by simp
    from Cons.prems(6) Done have nw: "now \<in> set nows" and sub: "set (readings ops) \<subseteq> set nows" by simp_all
    from Cons.prems(7) Done have sub2: "datetime_str ` set (readings ops) \<subseteq> set starts" by simp
    from done_step_any [OF Cons.prems(1) Cons.prems(2) Cons.prems(3) up nw fb]
    have d: "distinct (map fst ?t)" and c: "closed_except_last ?t" and s: "starts_in (set starts) ?t"
      and u: "days_upto (date_str now) ?t" by simp_all
    have u': "\<forall>t\<in>set (readings ops). days_upto (date_str t) ?t"
      using u rest by (blast intro: days_upto_mono)
    from Cons.IH [OF d c s srt u' sub sub2] show ?thesis
      unfolding run using Done by simp
  next
    case (Recent num)
    with Cons.prems have "sorted (map date_str (readings ops))"
      "\<forall>t\<in>set (readings ops). days_upto (date_str t) timeline"
      "set (readings ops) \<subseteq> set nows" "datetime_str ` set (readings ops) \<subseteq> set starts" by simp_all
    from Cons.IH [OF Cons.prems(1) Cons.prems(2) Cons.prems(3) this] show ?thesis
      unfolding run using Recent by simp
  next
    case Current
    with Cons.prems have "sorted (map date_str (readings ops))"
      "\<forall>t\<in>set (readings ops). days_upto (date_str t) timeline"
      "set (readings ops) \<subseteq> set nows" "datetime_str ` set (readings ops) \<subseteq> set starts" by simp_all
    from Cons.IH [OF Cons.prems(1) Cons.prems(2) Cons.prems(3) this] show ?thesis
      unfolding run using Current by simp
  qed
qed

lemma open_intervals_Cons:
  "open_intervals ((d, es) # timeline) =
     map (Pair d) (filter (\<lambda>i. e_end (es ! i) = None) [0..<length es]) @ open_intervals timeline"
  by (simp add: open_intervals_def)

lemma set_open_intervals:
  "(d, i) \<in> set (open_intervals timeline) \<longleftrightarrow>
     (\<exists>es. (d, es) \<in> set timeline \<and> i < length es \<and> e_end (es ! i) = None)"
  by (induction timeline) (auto simp add: open_intervals_Cons, simp add: open_intervals_def)

lemma distinct_open_intervals:
  "distinct (map fst timeline) \<Longrightarrow> distinct (open_intervals timeline)"
proof (induction timeline)
  case Nil
  then show ?case by (simp add: open_intervals_def)
next
  case (Cons p timeline)
  obtain d es where p: "p = (d, es)" by (cases p)
  from Cons.prems p have nk: "d \<notin> fst ` set timeline" and dist: "distinct (map fst timeline)" by simp_all
  have disj: "set (map (Pair d) (filter (\<lambda>i. e_end (es ! i) = None) [0..<length es])) \<inter>
      set (open_intervals timeline) = {}"
  proof (rule ccontr)
    assume "\<not> ?thesis"
    then obtain i where "(d, i) \<in> set (open_intervals timeline)" by auto
    then obtain es' where "(d, es') \<in> set timeline" unfolding set_open_intervals by blast
    with nk show False by force
  qed
  have "distinct (map (Pair d) (filter (\<lambda>i. e_end (es ! i) = None) [0..<length es]))"
    by (simp add: distinct_map inj_on_def)
  with Cons.IH [OF dist] disj show ?case
    unfolding p open_intervals_Cons by simp
qed

lemma at_most_one_position:
  assumes dist: "distinct (map fst timeline)" and cel: "closed_except_last timeline"
  shows "length (open_intervals timeline) \<le> 1 \<and>
         (\<forall>(d, i)\<in>set (open_intervals timeline).
            d = last (sort (map fst timeline)) \<and> Suc i = length (day_part timeline d))"
proof -
  let ?ld = "last (sort (map fst timeline))"
  have pos: "\<And>d i. (d, i) \<in> set (open_intervals timeline) \<Longrightarrow>
      d = ?ld \<and> Suc i = length (day_part timeline d)"
  proof -
    fix d i assume "(d, i) \<in> set (open_intervals timeline)"
    then obtain es where es: "(d, es) \<in> set timeline" "i < length es" "e_end (es ! i) = None"
      unfolding set_open_intervals by blast
    with cel have "d = ?ld" "Suc i = length es" unfolding closed_except_last_iff by blast+
    moreover from es(1) dist have "day_part timeline d = es" by (simp add: day_part_def)
    ultimately show "d = ?ld \<and> Suc i = length (day_part timeline d)" by simp
  qed
  then have "set (open_intervals timeline) \<subseteq> {(?ld, length (day_part timeline ?ld) - 1)}"
    by force
  then have "card (set (open_intervals timeline)) \<le> card {(?ld, length (day_part timeline ?ld) - 1)}"
    by (intro card_mono) simp_all
  moreover have "card (set (open_intervals timeline)) = length (open_intervals timeline)"
    using distinct_open_intervals [OF dist] by (rule distinct_card)
  ultimately have "length (open_intervals timeline) \<le> 1" by simp
  with pos show ?thesis by blast
qed

lemma starts_in_start_strs: "starts_in (set (start_strs timeline)) timeline"
  unfolding starts_in_iff start_strs_def by force

lemma starts_in_mono: "starts_in S timeline \<Longrightarrow> S \<subseteq> S' \<Longrightarrow> starts_in S' timeline"
  unfolding starts_in_iff by blast

text \<open>
  C2 (as the code has it). Take a timeline with distinct days in which an entry without
  an end is the last entry of the greatest day, and a session whose clock readings never
  go back to an earlier day and are not before the days of the timeline, with
  \<^verbatim>\<open>utils.offset_day\<close> filling no day after the day of a finish. After the session at most
  one entry has no end, and such an entry is the last entry of the greatest day.
\<close>

theorem at_most_one_ongoing:
  assumes dist: "distinct (map fst timeline)"
    and cel: "closed_except_last timeline"
    and mono: "sorted (map date_str (readings ops))"
    and init: "\<forall>t\<in>set (readings ops). days_upto (date_str t) timeline"
    and fb: "fills_bounded U (start_strs timeline @ map datetime_str (readings ops)) (readings ops)"
  shows "length (open_intervals (run U activities ops timeline)) \<le> 1 \<and>
         (\<forall>(d, i)\<in>set (open_intervals (run U activities ops timeline)).
            d = last (sort (map fst (run U activities ops timeline))) \<and>
            Suc i = length (day_part (run U activities ops timeline) d))"
proof -
  let ?starts = "start_strs timeline @ map datetime_str (readings ops)"
  have st: "starts_in (set ?starts) timeline"
    using starts_in_start_strs by (rule starts_in_mono) simp
  have "distinct (map fst (run U activities ops timeline)) \<and>
        closed_except_last (run U activities ops timeline)"
    using fb dist cel st mono init by (rule run_invariant) simp_all
  then show ?thesis using at_most_one_position by blast
qed

section \<open>Finishing with no ongoing activity\<close>

lemma last_activity_of_bucket:
  assumes "timeline \<noteq> []"
    and "map_of timeline (last (sort (map fst timeline))) = Some as" and "as \<noteq> []"
  shows "last_activity timeline = Inr (last (sort (map fst timeline)), last as)"
  using assms sort_keys_nonempty [OF assms(1)]
  by (simp add: last_activity_def py_last_def dict_get_def)

lemma done_last:
  assumes la: "last_activity timeline = Inr (d, a)"
    and ns: "\<not> date_str now < date_str (parse U (e_start a))"
  shows "\<exists>k x. last_activity (snd (done_activity U now timeline)) = Inr (k, x) \<and>
           e_start x = e_start a \<and> e_name x = e_name a \<and> e_end x = Some (datetime_str now)"
proof -
  from last_activity_Inr [OF la] obtain as where ne: "timeline \<noteq> []"
    and d: "d = last (sort (map fst timeline))"
    and as: "map_of timeline d = Some as" "as \<noteq> []" "last as = a" by blast
  let ?new = "butlast as @ [a\<lparr>e_end := Some (datetime_str now)\<rparr>]"
  let ?t1 = "set_end timeline d (datetime_str now)"
  let ?offs = "[1 .. day now - day (parse U (e_start a))]"
  let ?t2 = "fill_days U (parse U (e_start a)) (fragment a now) ?offs ?t1"
  let ?P = "\<lambda>t. \<exists>k x. last_activity t = Inr (k, x) \<and>
           e_start x = e_start a \<and> e_name x = e_name a \<and> e_end x = Some (datetime_str now)"
  have m1: "map_of ?t1 d = Some ?new"
    using map_of_set_end_same [OF as(1)] as(3) by simp
  have k1: "map fst ?t1 = map fst timeline" by (rule keys_set_end)
  have din: "d \<in> set (map fst timeline)" unfolding d by (rule last_key_in [OF ne])
  have ne1: "?t1 \<noteq> []" using k1 ne by (metis map_is_Nil_conv)
  have l1: "last (sort (map fst ?t1)) = d" by (simp add: keys_set_end d)
  have "last_activity ?t1 = Inr (last (sort (map fst ?t1)), last ?new)"
    by (rule last_activity_of_bucket [OF ne1]) (simp_all add: l1 m1)
  then have c1: "?P ?t1" by simp
  have k2: "set (map fst ?t2) = set (map fst timeline) \<union> offset_day U (parse U (e_start a)) ` set ?offs"
    unfolding keys_fill_days k1 ..
  have ne2: "?t2 \<noteq> []" using k2 din by (metis Un_iff empty_iff list.set(1) list.simps(8))
  let ?k = "last (sort (map fst ?t2))"
  have kin: "?k \<in> set (map fst ?t2)" by (rule last_key_in [OF ne2])
  have c2: "?P ?t2"
  proof (cases "?k \<in> offset_day U (parse U (e_start a)) ` set ?offs")
    case True
    then have "map_of ?t2 ?k = Some [fragment a now]" by (simp add: map_of_fill_days)
    from last_activity_of_bucket [OF ne2 this] show ?thesis by (simp add: fragment_def)
  next
    case False
    with kin k2 have "?k \<in> set (map fst timeline)" by blast
    then have "?k \<le> d" unfolding d by (simp add: sorted_le_last)
    moreover have "d \<in> set (sort (map fst ?t2))" using k2 din by simp
    then have "d \<le> ?k" by (intro sorted_le_last) simp_all
    ultimately have "?k = d" by simp
    with False m1 have "map_of ?t2 ?k = Some ?new" by (simp add: map_of_fill_days)
    from last_activity_of_bucket [OF ne2 this] show ?thesis by simp
  qed
  show ?thesis
    unfolding done_activity_ok [OF la ns]
    using c1 c2 by simp
qed

lemma done_idle:
  assumes ne: "timeline \<noteq> []" and cur: "current_activity timeline = Inr None"
  shows "\<exists>d a as old.
         last_activity timeline = Inr (d, a) \<and> map_of timeline d = Some as \<and> as \<noteq> [] \<and>
         last as = a \<and> e_end a = Some old \<and>
         fst (done_activity U now timeline) =
           (if date_str now < date_str (parse U (e_start a))
            then Inl (TimelineError ''Finishing activity before it was started. Maybe system clock is wrong?'')
            else Inr (parse U (e_start a), now, e_name a)) \<and>
         ((date_str (parse U (e_start a)) < date_str now \<longrightarrow>
             d \<notin> offset_day U (parse U (e_start a)) ` {1 .. day now - day (parse U (e_start a))}) \<longrightarrow>
          map_of (snd (done_activity U now timeline)) d =
            Some (butlast as @ [a\<lparr>e_end := Some (datetime_str now)\<rparr>]))"
proof -
  from ne cur obtain d a old where la: "last_activity timeline = Inr (d, a)" and old: "e_end a = Some old"
    by (auto simp add: current_activity_def split: sum.splits if_splits)
  from last_activity_Inr [OF la] obtain as where
    as: "map_of timeline d = Some as" "as \<noteq> []" "last as = a" by blast
  have m: "map_of (set_end timeline d (datetime_str now)) d =
      Some (butlast as @ [a\<lparr>e_end := Some (datetime_str now)\<rparr>])"
    using map_of_set_end_same [OF as(1)] as(3) by simp
  have f: "fst (done_activity U now timeline) =
         (if date_str now < date_str (parse U (e_start a))
          then Inl (TimelineError ''Finishing activity before it was started. Maybe system clock is wrong?'')
          else Inr (parse U (e_start a), now, e_name a))"
    using la by (simp add: done_activity_def Let_def)
  have s: "(date_str (parse U (e_start a)) < date_str now \<longrightarrow>
           d \<notin> offset_day U (parse U (e_start a)) ` {1 .. day now - day (parse U (e_start a))}) \<longrightarrow>
        map_of (snd (done_activity U now timeline)) d =
          Some (butlast as @ [a\<lparr>e_end := Some (datetime_str now)\<rparr>])"
    using la m by (auto simp add: done_activity_def Let_def map_of_fill_days)
  from la as old f s show ?thesis by blast
qed

text \<open>
  C1 (as the code has it). \<^verbatim>\<open>done\<close> has no failure of its own for a timeline without an
  ongoing activity. On the empty timeline it raises \<^verbatim>\<open>IndexError\<close> and leaves the
  timeline empty. On a timeline that is not empty and on which \<^verbatim>\<open>current_activity\<close>
  returns \<^verbatim>\<open>None\<close>, the last entry of the greatest day has an end, and \<^verbatim>\<open>done\<close> treats
  it as the ongoing one: it raises its \<^verbatim>\<open>TimelineError\<close> when the day of the clock reading
  is before the start day of that entry and returns start, reading and name otherwise, and
  it writes the reading over the end of that entry (the day of the entry holds its entries
  with the end of the last one replaced, unless it is a filled day). \<^verbatim>\<open>done\<close> after a
  \<^verbatim>\<open>done\<close> that returned is such a call: \<^verbatim>\<open>current_activity\<close> returns \<^verbatim>\<open>None\<close> in
  between, and the second call completes the same activity again, at its own reading.
\<close>

theorem done_without_ongoing:
  "done_activity U now [] = (Inl IndexError, []) \<and>
   (timeline \<noteq> [] \<and> current_activity timeline = Inr None \<longrightarrow>
      (\<exists>d a as old.
         last_activity timeline = Inr (d, a) \<and> map_of timeline d = Some as \<and> as \<noteq> [] \<and>
         last as = a \<and> e_end a = Some old \<and>
         fst (done_activity U now timeline) =
           (if date_str now < date_str (parse U (e_start a))
            then Inl (TimelineError ''Finishing activity before it was started. Maybe system clock is wrong?'')
            else Inr (parse U (e_start a), now, e_name a)) \<and>
         ((date_str (parse U (e_start a)) < date_str now \<longrightarrow>
             d \<notin> offset_day U (parse U (e_start a)) ` {1 .. day now - day (parse U (e_start a))}) \<longrightarrow>
          map_of (snd (done_activity U now timeline)) d =
            Some (butlast as @ [a\<lparr>e_end := Some (datetime_str now)\<rparr>])))) \<and>
   (last_activity timeline = Inr (d0, a0) \<and> \<not> date_str now < date_str (parse U (e_start a0)) \<longrightarrow>
      current_activity (snd (done_activity U now timeline)) = Inr None \<and>
      fst (done_activity U again (snd (done_activity U now timeline))) =
        (if date_str again < date_str (parse U (e_start a0))
         then Inl (TimelineError ''Finishing activity before it was started. Maybe system clock is wrong?'')
         else Inr (parse U (e_start a0), again, e_name a0)))"
proof -
  have e: "done_activity U now [] = (Inl IndexError, [])"
    by (simp add: done_activity_def last_activity_def py_last_def)
  have t: "current_activity (snd (done_activity U now timeline)) = Inr None \<and>
      fst (done_activity U again (snd (done_activity U now timeline))) =
        (if date_str again < date_str (parse U (e_start a0))
         then Inl (TimelineError ''Finishing activity before it was started. Maybe system clock is wrong?'')
         else Inr (parse U (e_start a0), again, e_name a0))"
    if la: "last_activity timeline = Inr (d0, a0)" and ns: "\<not> date_str now < date_str (parse U (e_start a0))"
  proof -
    from done_last [OF la ns] obtain k x where
      l: "last_activity (snd (done_activity U now timeline)) = Inr (k, x)"
      and x: "e_start x = e_start a0" "e_name x = e_name a0" "e_end x = Some (datetime_str now)"
      by blast
    from last_activity_Inr [OF l] have "snd (done_activity U now timeline) \<noteq> []" by blast
    with l x have "current_activity (snd (done_activity U now timeline)) = Inr None"
      by (simp add: current_activity_def)
    moreover have "fst (done_activity U again (snd (done_activity U now timeline))) =
        (if date_str again < date_str (parse U (e_start a0))
         then Inl (TimelineError ''Finishing activity before it was started. Maybe system clock is wrong?'')
         else Inr (parse U (e_start a0), again, e_name a0))"
      using l x by (simp add: done_activity_def [of U again] Let_def)
    ultimately show ?thesis by blast
  qed
  from e done_idle [of timeline U now] t show ?thesis by blast
qed

section \<open>The properties on examples\<close>

text \<open>
  The example of the spec for C4: the activity started at \<^verbatim>\<open>2024-01-10T23:50\<close> and finished at
  \<^verbatim>\<open>2024-01-12T00:10\<close> leaves three days, the 11th and the 12th holding the link to the 10th.
\<close>

theorem done_fills_days_witness:
  "last_activity spec_example = Inr (''2024-01-10'', spec_entry) \<and>
   date_str (parse iso (e_start spec_entry)) < date_str spec_finish \<and>
   fst (done_activity iso spec_finish spec_example) =
     Inr (parse iso (e_start spec_entry), spec_finish, e_name spec_entry) \<and>
   map_of (snd (done_activity iso spec_finish spec_example))
     (offset_day iso (parse iso (e_start spec_entry)) 2) =
     Some [\<lparr>e_id = e_id spec_entry, e_name = e_name spec_entry, e_start = e_start spec_entry,
            e_end = Some (datetime_str spec_finish), e_previous = Some ''''\<rparr>] \<and>
   snd (done_activity iso spec_finish spec_example) =
     [(''2024-01-10'', [completed ''id-a'' ''a'' ''2024-01-10T23:50'' ''2024-01-12T00:10'']),
      (''2024-01-11'', [fragment spec_entry spec_finish]),
      (''2024-01-12'', [fragment spec_entry spec_finish])]"
proof -
  have h1: "last_activity spec_example = Inr (''2024-01-10'', spec_entry)"
    by (simp add: spec_example_def last_activity_def py_last_def dict_get_def)
  have h2: "date_str (parse iso (e_start spec_entry)) < date_str spec_finish"
    by code_simp
  have n: "day spec_finish - day (parse iso (e_start spec_entry)) = 2"
    by code_simp
  have e: "snd (done_activity iso spec_finish spec_example) =
     [(''2024-01-10'', [completed ''id-a'' ''a'' ''2024-01-10T23:50'' ''2024-01-12T00:10'']),
      (''2024-01-11'', [fragment spec_entry spec_finish]),
      (''2024-01-12'', [fragment spec_entry spec_finish])]"
    by code_simp
  from done_fills_days [OF h1 h2] have
    a: "fst (done_activity iso spec_finish spec_example) =
       Inr (parse iso (e_start spec_entry), spec_finish, e_name spec_entry)" and
    b: "\<forall>k\<in>{1 .. 2}.
            map_of (snd (done_activity iso spec_finish spec_example)) (offset_day iso (parse iso (e_start spec_entry)) k) =
              Some [\<lparr>e_id = e_id spec_entry, e_name = e_name spec_entry, e_start = e_start spec_entry,
                      e_end = Some (datetime_str spec_finish), e_previous = Some ''''\<rparr>]"
    unfolding n by blast+
  from b have c: "map_of (snd (done_activity iso spec_finish spec_example))
     (offset_day iso (parse iso (e_start spec_entry)) 2) =
     Some [\<lparr>e_id = e_id spec_entry, e_name = e_name spec_entry, e_start = e_start spec_entry,
            e_end = Some (datetime_str spec_finish), e_previous = Some ''''\<rparr>]" by simp
  from h1 h2 a c e show ?thesis by blast
qed


lemma one_to_two: "{1 .. 2::int} = {1, 2}"
  by auto



text \<open>
  C1 on an activity completed at 10:00: \<^verbatim>\<open>done\<close> at 10:30 returns and moves the end to
  10:30; and on an ongoing activity: \<^verbatim>\<open>done\<close> at 10:00 followed by \<^verbatim>\<open>done\<close> at 10:30.
\<close>

theorem done_without_ongoing_witness:
  "b_completed \<noteq> [] \<and> current_activity b_completed = Inr None \<and>
   last_activity b_completed =
     Inr (''2024-01-10'', completed ''id-b'' ''b'' ''2024-01-10T09:00'' ''2024-01-10T10:00'') \<and>
   fst (done_activity iso (iso_parse ''2024-01-10T10:30'') b_completed) =
     Inr (iso_parse ''2024-01-10T09:00'', iso_parse ''2024-01-10T10:30'', ''b'') \<and>
   map_of (snd (done_activity iso (iso_parse ''2024-01-10T10:30'') b_completed)) ''2024-01-10'' =
     Some [completed ''id-b'' ''b'' ''2024-01-10T09:00'' ''2024-01-10T10:30''] \<and>
   last_activity b_ongoing = Inr (''2024-01-10'', ongoing ''id-b'' ''b'' ''2024-01-10T09:00'') \<and>
   \<not> date_str (iso_parse ''2024-01-10T10:00'') <
       date_str (parse iso (e_start (ongoing ''id-b'' ''b'' ''2024-01-10T09:00''))) \<and>
   snd (done_activity iso (iso_parse ''2024-01-10T10:00'') b_ongoing) = b_completed \<and>
   current_activity (snd (done_activity iso (iso_parse ''2024-01-10T10:00'') b_ongoing)) = Inr None \<and>
   fst (done_activity iso (iso_parse ''2024-01-10T10:30'')
          (snd (done_activity iso (iso_parse ''2024-01-10T10:00'') b_ongoing))) =
     Inr (iso_parse ''2024-01-10T09:00'', iso_parse ''2024-01-10T10:30'', ''b'') \<and>
   done_activity iso (iso_parse ''2024-01-10T10:30'') [] = (Inl IndexError, [])"
proof -
  define b where "b = completed ''id-b'' ''b'' ''2024-01-10T09:00'' ''2024-01-10T10:00''"
  define o' where "o' = ongoing ''id-b'' ''b'' ''2024-01-10T09:00''"
  define n where "n = iso_parse ''2024-01-10T10:00''"
  define m where "m = iso_parse ''2024-01-10T10:30''"
  define s where "s = iso_parse ''2024-01-10T09:00''"
  have h1: "b_completed \<noteq> []" by (simp add: b_completed_def)
  have h2: "current_activity b_completed = Inr None" by code_simp
  have l: "last_activity b_completed = Inr (''2024-01-10'', b)" unfolding b_def by code_simp
  have h3: "last_activity b_ongoing = Inr (''2024-01-10'', o')" unfolding o'_def by code_simp
  have h4: "\<not> date_str n < date_str (parse iso (e_start o'))" unfolding n_def o'_def by code_simp
  have p: "parse iso (e_start b) = s" "e_name b = ''b''"
    by (simp_all add: iso_def completed_def b_def s_def)
  have p': "parse iso (e_start o') = s" "e_name o' = ''b''"
    by (simp_all add: iso_def ongoing_def o'_def s_def)
  have q: "\<not> date_str m < date_str s" unfolding m_def s_def by code_simp
  have q': "\<not> date_str s < date_str m" unfolding m_def s_def by code_simp
  have u: "[b\<lparr>e_end := Some (datetime_str m)\<rparr>] =
      [completed ''id-b'' ''b'' ''2024-01-10T09:00'' ''2024-01-10T10:30'']"
    by (simp add: completed_def iso_parse_def b_def m_def)
  have e: "snd (done_activity iso n b_ongoing) = b_completed" unfolding n_def by code_simp
  have mb: "map_of b_completed ''2024-01-10'' = Some [b]" by (simp add: b_completed_def b_def)
  note t = done_without_ongoing [where U = iso and now = m and timeline = b_completed]
  from t have c6: "done_activity iso m [] = (Inl IndexError, [])" by (rule conjunct1)
  from t [THEN conjunct2, THEN conjunct1, THEN mp, OF conjI [OF h1 h2]]
  obtain d a as where
    x1: "last_activity b_completed = Inr (d, a)" and x2: "map_of b_completed d = Some as"
    and f: "fst (done_activity iso m b_completed) =
           (if date_str m < date_str (parse iso (e_start a))
            then Inl (TimelineError ''Finishing activity before it was started. Maybe system clock is wrong?'')
            else Inr (parse iso (e_start a), m, e_name a))"
    and st: "(date_str (parse iso (e_start a)) < date_str m \<longrightarrow>
             d \<notin> offset_day iso (parse iso (e_start a)) ` {1 .. day m - day (parse iso (e_start a))}) \<longrightarrow>
          map_of (snd (done_activity iso m b_completed)) d =
            Some (butlast as @ [a\<lparr>e_end := Some (datetime_str m)\<rparr>])"
    by (elim exE conjE)
  from x1 l have d: "d = ''2024-01-10''" and a: "a = b" by simp_all
  from x2 mb have as: "as = [b]" unfolding d by simp
  from f have c1: "fst (done_activity iso m b_completed) = Inr (s, m, ''b'')"
    unfolding a p by (simp only: q if_False)
  from q' have pre: "date_str s < date_str m \<longrightarrow>
             ''2024-01-10'' \<notin> offset_day iso s ` {1 .. day m - day s}" by (rule contrapos_np [THEN impI]) 
  from st [unfolded a p d as, THEN mp, OF pre]
  have c2: "map_of (snd (done_activity iso m b_completed)) ''2024-01-10'' =
     Some [completed ''id-b'' ''b'' ''2024-01-10T09:00'' ''2024-01-10T10:30'']"
    by (simp only: butlast.simps simp_thms if_True append_Nil u)
  note t' = done_without_ongoing [where U = iso and now = n and timeline = b_ongoing
      and ?d0.0 = "''2024-01-10''" and ?a0.0 = o' and again = m]
  note r = t' [THEN conjunct2, THEN conjunct2, THEN mp, OF conjI [OF h3 h4]]
  from r have c3: "current_activity (snd (done_activity iso n b_ongoing)) = Inr None"
    by (rule conjunct1)
  from r [THEN conjunct2] have c5: "fst (done_activity iso m (snd (done_activity iso n b_ongoing))) =
     Inr (s, m, ''b'')"
    unfolding p' by (simp only: q if_False)
  from h1 h2 l c1 c2 h3 h4 e c3 c5 c6 show ?thesis
    unfolding b_def o'_def n_def m_def s_def by (intro conjI)
qed

text \<open>
  C1 as stated fails: on a timeline of two days whose entries are completed, \<^verbatim>\<open>done\<close>
  succeeds and writes a new end into the completed last entry; on the empty timeline it
  raises \<^verbatim>\<open>IndexError\<close>.
\<close>

theorem done_nothing_to_finish_counterexample:
  "current_activity two_days = Inr None \<and>
   done_activity iso (iso_parse ''2024-01-11T11:00'') two_days =
     (Inr (iso_parse ''2024-01-11T09:00'', iso_parse ''2024-01-11T11:00'', ''b''),
      [(''2024-01-10'', [completed ''id-a'' ''a'' ''2024-01-10T09:00'' ''2024-01-10T10:00'']),
       (''2024-01-11'', [completed ''id-b'' ''b'' ''2024-01-11T09:00'' ''2024-01-11T11:00''])]) \<and>
   done_activity iso (iso_parse ''2024-01-11T11:00'') [] = (Inl IndexError, [])"
  by code_simp

text \<open>
  C3 on a name that is no activity, a path with a missing ancestor, and a clock reading a
  day before the start of the ongoing activity.
\<close>

theorem failed_operation_frame_witness:
  "activity_id ab_catalog ''/c/leaf'' = None \<and>
   (\<exists>m. start iso ab_catalog ''/c/leaf'' (iso_parse ''2024-01-11T09:00'') (iso_parse ''2024-01-11T09:00'')
           skew_example = (Inl (TimelineError m), skew_example)) \<and>
   fst (new_activity uuid_ex ''/c/leaf'' False 0 ab_catalog) \<noteq> None \<and>
   snd (new_activity uuid_ex ''/c/leaf'' False 0 ab_catalog) = (ab_catalog, 0) \<and>
   done_activity iso (iso_parse ''2024-01-11T09:00'') skew_example =
     (Inl (TimelineError ''Finishing activity before it was started. Maybe system clock is wrong?''),
      [(''2024-01-12'', [completed ''id-a'' ''a'' ''2024-01-12T09:00'' ''2024-01-11T09:00''])]) \<and>
   map fst [(''2024-01-12'', [completed ''id-a'' ''a'' ''2024-01-12T09:00'' ''2024-01-11T09:00''])] =
     map fst skew_example"
proof -
  have h1: "activity_id ab_catalog ''/c/leaf'' = None" by code_simp
  have h2: "fst (new_activity uuid_ex ''/c/leaf'' False 0 ab_catalog) \<noteq> None" by code_simp
  have h3: "done_activity iso (iso_parse ''2024-01-11T09:00'') skew_example =
     (Inl (TimelineError ''Finishing activity before it was started. Maybe system clock is wrong?''),
      [(''2024-01-12'', [completed ''id-a'' ''a'' ''2024-01-12T09:00'' ''2024-01-11T09:00''])])"
    by code_simp
  note t = failed_operation_frame [where activities = ab_catalog and activity = "''/c/leaf''"
      and U = iso and now_done = "iso_parse ''2024-01-11T09:00''"
      and now = "iso_parse ''2024-01-11T09:00''" and timeline = skew_example
      and ?uuid4.0 = uuid_ex and path = "''/c/leaf''" and parents = False and n = 0
      and m = "''Finishing activity before it was started. Maybe system clock is wrong?''"
      and timeline' = "[(''2024-01-12'', [completed ''id-a'' ''a'' ''2024-01-12T09:00'' ''2024-01-11T09:00''])]"]
  from t h1 have a: "\<exists>m. start iso ab_catalog ''/c/leaf'' (iso_parse ''2024-01-11T09:00'') (iso_parse ''2024-01-11T09:00'')
           skew_example = (Inl (TimelineError m), skew_example)" by blast
  from t h2 have b: "snd (new_activity uuid_ex ''/c/leaf'' False 0 ab_catalog) = (ab_catalog, 0)" by blast
  from t h3 have c: "map fst [(''2024-01-12'', [completed ''id-a'' ''a'' ''2024-01-12T09:00'' ''2024-01-11T09:00''])] =
     map fst skew_example" by blast
  from h1 h2 h3 a b c show ?thesis by blast
qed

text \<open>
  C3 as stated fails: when \<^verbatim>\<open>done\<close> raises for a clock that moved backward, the entry that
  was going on has its end set.
\<close>

theorem done_clock_skew_counterexample:
  "done_activity iso (iso_parse ''2024-01-11T09:00'') skew_example =
     (Inl (TimelineError ''Finishing activity before it was started. Maybe system clock is wrong?''),
      [(''2024-01-12'', [completed ''id-a'' ''a'' ''2024-01-12T09:00'' ''2024-01-11T09:00''])]) \<and>
   skew_example = [(''2024-01-12'', [ongoing ''id-a'' ''a'' ''2024-01-12T09:00''])] \<and>
   e_end (ongoing ''id-a'' ''a'' ''2024-01-12T09:00'') = None \<and>
   e_end (completed ''id-a'' ''a'' ''2024-01-12T09:00'' ''2024-01-11T09:00'') = Some ''2024-01-11T09:00''"
  by code_simp

text \<open>
  C5 as stated fails: \<^verbatim>\<open>done\<close> and \<^verbatim>\<open>start\<close> read the clock one after the other; with the
  readings \<^verbatim>\<open>12:00\<close> and \<^verbatim>\<open>12:01\<close> the completed entry ends at \<^verbatim>\<open>12:00\<close> and the new one
  starts at \<^verbatim>\<open>12:01\<close>.
\<close>

theorem start_end_is_start_counterexample:
  "start iso ab_catalog ''a'' (iso_parse ''2024-01-10T12:00'') (iso_parse ''2024-01-10T12:01'') b_ongoing =
     (Inr (Some (iso_parse ''2024-01-10T09:00'', iso_parse ''2024-01-10T12:00'', ''b'')),
      [(''2024-01-10'',
        [completed ''id-b'' ''b'' ''2024-01-10T09:00'' ''2024-01-10T12:00'',
         ongoing ''id-a'' ''a'' ''2024-01-10T12:01''])])"
  by code_simp

text \<open>
  C5 on the same call.
\<close>

theorem start_completes_ongoing_witness:
  "activity_id ab_catalog ''a'' = Some ''id-a'' \<and>
   current_activity b_ongoing = Inr (Some (ongoing ''id-b'' ''b'' ''2024-01-10T09:00'')) \<and>
   \<not> date_str (iso_parse ''2024-01-10T12:00'') <
       date_str (parse iso (e_start (ongoing ''id-b'' ''b'' ''2024-01-10T09:00''))) \<and>
   fst (start iso ab_catalog ''a'' (iso_parse ''2024-01-10T12:00'') (iso_parse ''2024-01-10T12:01'') b_ongoing) =
     Inr (Some (parse iso (e_start (ongoing ''id-b'' ''b'' ''2024-01-10T09:00'')),
                iso_parse ''2024-01-10T12:00'', e_name (ongoing ''id-b'' ''b'' ''2024-01-10T09:00''))) \<and>
   (\<exists>xs. map_of (snd (start iso ab_catalog ''a'' (iso_parse ''2024-01-10T12:00'')
                        (iso_parse ''2024-01-10T12:01'') b_ongoing))
            (date_str (iso_parse ''2024-01-10T12:01'')) =
          Some (xs @ [\<lparr>e_id = ''id-a'', e_name = ''a'', e_start = datetime_str (iso_parse ''2024-01-10T12:01''),
                       e_end = None, e_previous = None\<rparr>]))"
proof -
  have h1: "activity_id ab_catalog ''a'' = Some ''id-a''" by code_simp
  have h2: "current_activity b_ongoing = Inr (Some (ongoing ''id-b'' ''b'' ''2024-01-10T09:00''))"
    by code_simp
  have h3: "\<not> date_str (iso_parse ''2024-01-10T12:00'') <
       date_str (parse iso (e_start (ongoing ''id-b'' ''b'' ''2024-01-10T09:00'')))"
    by code_simp
  from start_completes_ongoing [OF h1 h2 h3, of "iso_parse ''2024-01-10T12:01''"] h1 h2 h3
  show ?thesis by blast
qed

text \<open>
  C10 on a session from a timeline of two days, one entry going on: the entry is finished
  over two days and another one started; \<^verbatim>\<open>done\<close> then finds it.
\<close>

theorem buckets_stay_nonempty_witness:
  "all_nonempty frame_example \<and>
   all_nonempty (run iso ab_catalog idle_session frame_example) \<and>
   run iso ab_catalog idle_session frame_example =
     [(''2024-01-08'', [completed ''id-b'' ''b'' ''2024-01-08T09:00'' ''2024-01-08T10:00'']),
      (''2024-01-10'', [completed ''id-a'' ''a'' ''2024-01-10T23:50'' ''2024-01-12T00:10'']),
      (''2024-01-11'', [fragment spec_entry spec_finish]),
      (''2024-01-12'', [fragment spec_entry spec_finish, ongoing ''id-b'' ''b'' ''2024-01-12T08:00''])] \<and>
   current_activity (run iso ab_catalog idle_session frame_example) =
     Inr (Some (ongoing ''id-b'' ''b'' ''2024-01-12T08:00'')) \<and>
   last_activity (run iso ab_catalog idle_session frame_example) =
     Inr (''2024-01-12'', ongoing ''id-b'' ''b'' ''2024-01-12T08:00'') \<and>
   fst (done_activity iso (iso_parse ''2024-01-12T09:00'') (run iso ab_catalog idle_session frame_example)) =
     Inr (iso_parse ''2024-01-12T08:00'', iso_parse ''2024-01-12T09:00'', ''b'')"
proof -
  let ?t = "run iso ab_catalog idle_session frame_example"
  let ?o = "ongoing ''id-b'' ''b'' ''2024-01-12T08:00''"
  let ?m = "iso_parse ''2024-01-12T09:00''"
  have h: "all_nonempty frame_example"
    by (simp add: all_nonempty_def frame_example_def)
  have r: "?t =
     [(''2024-01-08'', [completed ''id-b'' ''b'' ''2024-01-08T09:00'' ''2024-01-08T10:00'']),
      (''2024-01-10'', [completed ''id-a'' ''a'' ''2024-01-10T23:50'' ''2024-01-12T00:10'']),
      (''2024-01-11'', [fragment spec_entry spec_finish]),
      (''2024-01-12'', [fragment spec_entry spec_finish, ?o])]"
    by code_simp
  have ne: "?t \<noteq> []" unfolding r by simp
  have l: "last_activity ?t = Inr (''2024-01-12'', ?o)" unfolding r by code_simp
  have c: "current_activity ?t = Inr (Some ?o)" unfolding r by code_simp
  have p: "parse iso (e_start ?o) = iso_parse ''2024-01-12T08:00''" "e_name ?o = ''b''"
    by (simp_all add: iso_def ongoing_def)
  have q: "\<not> date_str ?m < date_str (iso_parse ''2024-01-12T08:00'')" by code_simp
  from buckets_stay_nonempty [OF h, of iso ab_catalog idle_session] ne
  obtain d a where n: "all_nonempty ?t" and la: "last_activity ?t = Inr (d, a)"
    and f: "\<forall>now. fst (done_activity iso now ?t) =
                  (if date_str now < date_str (parse iso (e_start a))
                   then Inl (TimelineError ''Finishing activity before it was started. Maybe system clock is wrong?'')
                   else Inr (parse iso (e_start a), now, e_name a))"
    by blast
  from la l have a: "a = ?o" by simp
  from f have "fst (done_activity iso ?m ?t) =
      (if date_str ?m < date_str (parse iso (e_start a))
       then Inl (TimelineError ''Finishing activity before it was started. Maybe system clock is wrong?'')
       else Inr (parse iso (e_start a), ?m, e_name a))" by (rule spec)
  then have d: "fst (done_activity iso ?m ?t) = Inr (iso_parse ''2024-01-12T08:00'', ?m, ''b'')"
    unfolding a p using q by simp
  from h n r c l d show ?thesis by blast
qed

text \<open>
  C10 as stated fails on the empty timeline, which has no day without an entry: the
  expression of \<^verbatim>\<open>done\<close> takes the last element of the empty list of days.
\<close>

theorem done_empty_log_counterexample:
  "all_nonempty [] \<and>
   run iso ab_catalog [Current, Recent 1] [] = [] \<and>
   py_last (sort (map fst ([] :: JSONTimeline))) = Inl IndexError \<and>
   last_activity [] = Inl IndexError \<and>
   fst (done_activity iso (iso_parse ''2024-01-10T09:00'') []) = Inl IndexError"
  by (simp add: all_nonempty_def run_def last_activity_def py_last_def done_activity_def)

lemma iso_parse_0900:
  "iso_parse ''2024-01-10T09:00'' =
     \<lparr>date_str = ''2024-01-10'', datetime_str = ''2024-01-10T09:00'', day = 10\<rparr>"
  by code_simp

lemma iso_parse_2350:
  "iso_parse ''2024-01-10T23:50'' =
     \<lparr>date_str = ''2024-01-10'', datetime_str = ''2024-01-10T23:50'', day = 10\<rparr>"
  by code_simp

lemma iso_parse_0010:
  "iso_parse ''2024-01-12T00:10'' =
     \<lparr>date_str = ''2024-01-12'', datetime_str = ''2024-01-12T00:10'', day = 12\<rparr>"
  by code_simp

lemma iso_parse_0800:
  "iso_parse ''2024-01-12T08:00'' =
     \<lparr>date_str = ''2024-01-12'', datetime_str = ''2024-01-12T08:00'', day = 12\<rparr>"
  by code_simp

lemma iso_offset_day_1:
  "iso_offset_day \<lparr>date_str = ''2024-01-10'', datetime_str = s, day = 10\<rparr> 1 = ''2024-01-11''"
  by code_simp

lemma iso_offset_day_2:
  "iso_offset_day \<lparr>date_str = ''2024-01-10'', datetime_str = s, day = 10\<rparr> 2 = ''2024-01-12''"
  by code_simp

lemma session_fills_bounded:
  "fills_bounded iso (start_strs [] @ map datetime_str (readings session)) (readings session)"
  by (simp add: fills_bounded_def session_def start_strs_def iso_def iso_parse_0900 iso_parse_2350
      iso_parse_0010 iso_parse_0800 iso_offset_day_1 iso_offset_day_2 one_to_two)

text \<open>
  C2 on a session from the empty timeline that ends with an ongoing activity.
\<close>

theorem at_most_one_ongoing_witness:
  "distinct (map fst ([]::JSONTimeline)) \<and> closed_except_last [] \<and>
   sorted (map date_str (readings session)) \<and>
   fills_bounded iso (start_strs [] @ map datetime_str (readings session)) (readings session) \<and>
   length (open_intervals (run iso ab_catalog session [])) \<le> 1 \<and>
   open_intervals (run iso ab_catalog session []) = [(''2024-01-12'', 1)]"
proof -
  have h1: "distinct (map fst ([]::JSONTimeline))" by simp
  have h2: "closed_except_last []" by (simp add: closed_except_last_def)
  have h3: "sorted (map date_str (readings session))" by code_simp
  have h4: "\<forall>t\<in>set (readings session). days_upto (date_str t) []" by (simp add: days_upto_def)
  note h5 = session_fills_bounded
  have e: "open_intervals (run iso ab_catalog session []) = [(''2024-01-12'', 1)]" by code_simp
  from at_most_one_ongoing [OF h1 h2 h3 h4 h5, of ab_catalog]
  have "length (open_intervals (run iso ab_catalog session [])) \<le> 1" by blast
  with h1 h2 h3 h5 e show ?thesis by blast
qed

text \<open>
  C2 as stated fails: when the clock goes back a day while no activity is going on, the
  next two calls of \<^verbatim>\<open>start\<close> leave two entries without an end, on a day that is not the
  greatest.
\<close>

theorem backward_clock_counterexample:
  "open_intervals (run iso ab_catalog backward_session []) = [(''2024-01-10'', 0), (''2024-01-10'', 1)] \<and>
   last (sort (map fst (run iso ab_catalog backward_session []))) = ''2024-01-11''"
  by code_simp

end
